theory Spec2Isabelle
  imports Main "HOL-Library.Multiset"
begin

section \<open>Data model\<close>

text \<open>
  The entities handled by \<^verbatim>\<open>DisplayService\<close>: displays, views, content slots and the
  key/value options of a content slot. Option values are opaque scalars.
\<close>

datatype scalar = Str string | Num int | Boolean bool | Null

type_synonym optionMap = "(string \<times> scalar) list"

record display =
  display_id :: nat
  display_name :: string
  display_active :: bool
  display_clientId :: string
  display_description :: string
  display_location :: string

record view =
  view_id :: nat
  view_name :: string
  view_columns :: int
  view_rows :: int
  view_displayId :: nat
  view_order :: nat
  view_screenType :: string

record contentSlot =
  slot_id :: nat
  slot_componentType :: string
  slot_viewId :: nat
  slot_columnStart :: int
  slot_rowStart :: int
  slot_columnEnd :: int
  slot_rowEnd :: int

text \<open>
  A submitted slot descriptor, an element of \<^verbatim>\<open>newContentSlots\<close>. The field \<^verbatim>\<open>id\<close> is
  \<open>None\<close> where the JavaScript object has no \<^verbatim>\<open>id\<close> (\<^verbatim>\<open>undefined\<close>), and
  \<^verbatim>\<open>options\<close> is \<open>None\<close> where the object carries none. A client may send a
  \<^verbatim>\<open>viewId\<close> along (the records returned by \<^verbatim>\<open>getView\<close> have one); the service never
  reads it.
\<close>

record descriptor =
  desc_id :: "nat option"
  desc_componentType :: string
  desc_viewId :: "nat option"
  desc_columnStart :: int
  desc_rowStart :: int
  desc_columnEnd :: int
  desc_rowEnd :: int
  desc_options :: "optionMap option"

type_synonym enrichedContentSlot = "contentSlot \<times> optionMap"

type_synonym enrichedView = "view \<times> enrichedContentSlot list"

section \<open>Effects: storage, events, log, calls that are not awaited\<close>

datatype error = NotFound | StorageFailure | ListenerError

datatype event = DisplayCreated | DisplayUpdated | DisplayDeleted | ViewsUpdated

text \<open>
  What an event carries: the value of \<^verbatim>\<open>getDisplayById\<close> (a display, or \<^verbatim>\<open>null\<close>), or
  the result of the repository's delete.
\<close>

datatype payload = DisplayPayload "display option" | DeleteResult bool

text \<open>The calls the service makes on its collaborators, as a mock repository records them.\<close>

datatype call =
    CreateDisplay
  | GetDisplayById nat
  | UpdateDisplay nat
  | DeleteDisplay nat
  | GetViewById nat
  | GetViewsByDisplayIdAndScreenType nat string
  | CreateView
  | UpdateView nat
  | DeleteView nat
  | GetContentSlotsByViewId nat
  | GetContentSlot nat
  | CreateContentSlot
  | UpdateContentSlot nat
  | DeleteContentSlot nat
  | GetOptionsForContentSlot nat
  | DeleteOptionsForContentSlot nat
  | DeleteOption nat string
  | UpdateOption nat string
  | CreateOption nat string
  | Emit event

text \<open>A listener registered on the service for an event: it handles the event, or it throws.\<close>

datatype listener = Receives | Throws

text \<open>
  A call whose promise the source neither awaits nor returns: the option reconciliation
  started inside the loop of \<^verbatim>\<open>updateContentSlotsForView\<close>, and the notification at the
  end of \<^verbatim>\<open>updateView\<close>. The first repository call of such a call is made at once; the
  task is what remains to be done with its answer: for the options of a slot, the desired
  options and the answer of \<^verbatim>\<open>getOptionsForContentSlot\<close>; for the notification, the answer
  of \<^verbatim>\<open>getDisplayById\<close>.
\<close>

datatype task =
    SetOptionsTask nat optionMap "error + optionMap"
  | NotifyViewsUpdated "error + display option"

text \<open>
  The state threaded through every operation: the four tables with their identifier
  counters, the calls that storage rejects, the listeners registered for the events, the
  calls made so far, the events that \<^verbatim>\<open>emit\<close> has handed to every listener without a
  failure, the events as the listeners were called with them (one entry for each listener
  called), the errors handed to the logger, and the tasks started but not awaited.
\<close>

record state =
  displays :: "display list"
  views :: "view list"
  contentSlots :: "contentSlot list"
  contentSlotOptions :: "(nat \<times> string \<times> scalar) list"
  nextDisplayId :: nat
  nextViewId :: nat
  nextContentSlotId :: nat
  faulty :: "call list"
  listeners :: "(event \<times> listener) list"
  trace :: "call list"
  emitted :: "(event \<times> payload) list"
  delivered :: "(event \<times> payload) list"
  logged :: "error list"
  pending :: "task list"

type_synonym 'a io = "state \<Rightarrow> (error + 'a) \<times> state"

definition succeed :: "'a \<Rightarrow> 'a io" where
  "succeed x s = (Inr x, s)"

text \<open>\<^verbatim>\<open>p.then(f)\<close> and \<^verbatim>\<open>await\<close>: a rejection skips the continuation.\<close>

definition andThen :: "'a io \<Rightarrow> ('a \<Rightarrow> 'b io) \<Rightarrow> 'b io" where
  "andThen m f s = (case m s of (Inl e, s1) \<Rightarrow> (Inl e, s1) | (Inr x, s1) \<Rightarrow> f x s1)"

text \<open>\<^verbatim>\<open>for (const x of xs) { await body(x) }\<close> inside \<^verbatim>\<open>try\<close>: the first rejection ends the loop.\<close>

fun forEach :: "'a list \<Rightarrow> ('a \<Rightarrow> unit io) \<Rightarrow> unit io" where
  "forEach [] body s = (Inr (), s)"
| "forEach (x # xs) body s =
     (case body x s of (Inl e, s1) \<Rightarrow> (Inl e, s1) | (Inr u, s1) \<Rightarrow> forEach xs body s1)"

text \<open>\<^verbatim>\<open>p.catch(error => this.logger.error(error))\<close>: the rejection is logged and the chain goes on
  with \<^verbatim>\<open>undefined\<close>.\<close>

definition catchAndLog :: "'a io \<Rightarrow> 'a option io" where
  "catchAndLog m s =
     (case m s of
        (Inl e, s1) \<Rightarrow> (Inr None, s1\<lparr>logged := logged s1 @ [e]\<rparr>)
      | (Inr x, s1) \<Rightarrow> (Inr (Some x), s1))"

text \<open>
  A call that is neither awaited nor returned. The called function runs up to its first
  repository call before it hands back its promise, so that call reaches the repository at
  once; what the function does with the answer is left pending, and the caller goes on
  whatever the answer is.
\<close>

definition detach :: "'a io \<Rightarrow> ((error + 'a) \<Rightarrow> task) \<Rightarrow> unit io" where
  "detach firstCall rest s =
     (case firstCall s of (answer, s1) \<Rightarrow> (Inr (), s1\<lparr>pending := pending s1 @ [rest answer]\<rparr>))"

text \<open>A promise that is settled already: the pending part of a detached call goes on from it.\<close>

definition settled :: "(error + 'a) \<Rightarrow> 'a io" where
  "settled answer s = (answer, s)"

section \<open>The repositories\<close>

text \<open>
  The four repositories (DisplayRepository, ViewRepository, ContentSlotRepository,
  ContentSlotOptionRepository) are not among the sources: they are modelled from the
  persistence interface that the specification gives. They are
  plain create/read/update/delete over tables, without cascade and without transaction:
  create assigns a fresh identifier, get-by-id yields the record or not-found, update
  yields the identifier or not-found, delete yields a boolean success; options are rows
  (slot, key, value) read as a mapping. Any operation can fail with StorageFailure: the
  calls listed in \<open>faulty\<close> do. Not-found is \<^verbatim>\<open>null\<close> where the service tests the result
  (displays) and the NotFound failure where the service reads a field of the result
  (views, content slots). Every call is recorded in \<open>trace\<close>.
\<close>

text \<open>Modelled from the spec: a call on the persistence layer, which is not among the sources. The call is recorded; it fails with StorageFailure when storage rejects it, and otherwise runs on the tables.\<close>

definition request :: "call \<Rightarrow> (state \<Rightarrow> 'a \<times> state) \<Rightarrow> 'a io" where
  "request c f s =
     (let s1 = s\<lparr>trace := trace s @ [c]\<rparr>
      in if c \<in> set (faulty s) then (Inl StorageFailure, s1)
         else (case f s1 of (x, s2) \<Rightarrow> (Inr x, s2)))"

text \<open>Modelled from the spec: get-by-id and update yield the record or not-found; where the service reads a field of the result, not-found is the NotFound failure.\<close>

definition orNotFound :: "'a option io \<Rightarrow> 'a io" where
  "orNotFound m = andThen m (\<lambda>r. case r of None \<Rightarrow> (\<lambda>s. (Inl NotFound, s)) | Some x \<Rightarrow> succeed x)"

subsection \<open>DisplayRepository\<close>

text \<open>Modelled from the spec: DisplayRepository.createDisplay, create(fields) yielding the fresh identifier.\<close>

definition displayRepository_createDisplay ::
  "string \<Rightarrow> bool \<Rightarrow> string \<Rightarrow> string \<Rightarrow> string \<Rightarrow> nat io" where
  "displayRepository_createDisplay name active clientId description location =
     request CreateDisplay (\<lambda>s.
       (nextDisplayId s,
        s\<lparr>displays := displays s @
             [\<lparr>display_id = nextDisplayId s, display_name = name, display_active = active,
               display_clientId = clientId, display_description = description,
               display_location = location\<rparr>],
          nextDisplayId := Suc (nextDisplayId s)\<rparr>))"

text \<open>Modelled from the spec: DisplayRepository.getDisplayById, get-by-id yielding the record or not-found (\<^verbatim>\<open>null\<close>).\<close>

definition displayRepository_getDisplayById :: "nat \<Rightarrow> display option io" where
  "displayRepository_getDisplayById displayId =
     request (GetDisplayById displayId) (\<lambda>s.
       (find (\<lambda>d. display_id d = displayId) (displays s), s))"

text \<open>Modelled from the spec: DisplayRepository.updateDisplay, update(id, fields) yielding the identifier or not-found (\<^verbatim>\<open>null\<close>, which the service tests).\<close>

definition displayRepository_updateDisplay ::
  "nat \<Rightarrow> string \<Rightarrow> bool \<Rightarrow> string \<Rightarrow> string \<Rightarrow> string \<Rightarrow> nat option io" where
  "displayRepository_updateDisplay displayId name active clientId description location =
     request (UpdateDisplay displayId) (\<lambda>s.
       if displayId \<in> set (map display_id (displays s))
       then (Some displayId,
             s\<lparr>displays := map (\<lambda>d. if display_id d = displayId
                   then d\<lparr>display_name := name, display_active := active,
                          display_clientId := clientId, display_description := description,
                          display_location := location\<rparr>
                   else d) (displays s)\<rparr>)
       else (None, s))"

text \<open>Modelled from the spec: DisplayRepository.deleteDisplay, delete(id) yielding a boolean success.\<close>

definition displayRepository_deleteDisplay :: "nat \<Rightarrow> bool io" where
  "displayRepository_deleteDisplay displayId =
     request (DeleteDisplay displayId) (\<lambda>s.
       (displayId \<in> set (map display_id (displays s)),
        s\<lparr>displays := filter (\<lambda>d. display_id d \<noteq> displayId) (displays s)\<rparr>))"

subsection \<open>ViewRepository\<close>

text \<open>Modelled from the spec: ViewRepository.getViewById, get-by-id yielding the record or not-found.\<close>

definition viewRepository_getViewById :: "nat \<Rightarrow> view io" where
  "viewRepository_getViewById viewId =
     orNotFound (request (GetViewById viewId) (\<lambda>s.
       (find (\<lambda>v. view_id v = viewId) (views s), s)))"

text \<open>Modelled from the spec: ViewRepository.getViewsByDisplayIdAndScreenType, the views of one screen-type group of a display.\<close>

definition viewRepository_getViewsByDisplayIdAndScreenType :: "nat \<Rightarrow> string \<Rightarrow> view list io" where
  "viewRepository_getViewsByDisplayIdAndScreenType displayId screenType =
     request (GetViewsByDisplayIdAndScreenType displayId screenType) (\<lambda>s.
       (filter (\<lambda>v. view_displayId v = displayId \<and> view_screenType v = screenType) (views s), s))"

text \<open>Modelled from the spec: ViewRepository.createView, create(fields) with a fresh identifier; the service's callers receive the created record.\<close>

definition viewRepository_createView ::
  "string \<Rightarrow> int \<Rightarrow> int \<Rightarrow> nat \<Rightarrow> nat \<Rightarrow> string \<Rightarrow> view io" where
  "viewRepository_createView name columns rows displayId order screenType =
     request CreateView (\<lambda>s.
       (let v = \<lparr>view_id = nextViewId s, view_name = name, view_columns = columns,
                 view_rows = rows, view_displayId = displayId, view_order = order,
                 view_screenType = screenType\<rparr>
        in (v, s\<lparr>views := views s @ [v], nextViewId := Suc (nextViewId s)\<rparr>)))"

text \<open>Modelled from the spec: ViewRepository.updateView, update(id, fields); the service reads the identifier of the updated record it yields.\<close>

definition viewRepository_updateView ::
  "nat \<Rightarrow> string \<Rightarrow> int \<Rightarrow> int \<Rightarrow> nat \<Rightarrow> nat \<Rightarrow> string \<Rightarrow> view io" where
  "viewRepository_updateView viewId name columns rows displayId order screenType =
     orNotFound (request (UpdateView viewId) (\<lambda>s.
       (let vs = map (\<lambda>v. if view_id v = viewId
                   then v\<lparr>view_name := name, view_columns := columns, view_rows := rows,
                          view_displayId := displayId, view_order := order,
                          view_screenType := screenType\<rparr>
                   else v) (views s)
        in (find (\<lambda>v. view_id v = viewId) vs, s\<lparr>views := vs\<rparr>))))"

text \<open>Modelled from the spec: ViewRepository.deleteView, delete(id) yielding a boolean success; nothing is renumbered and nothing cascades.\<close>

definition viewRepository_deleteView :: "nat \<Rightarrow> bool io" where
  "viewRepository_deleteView viewId =
     request (DeleteView viewId) (\<lambda>s.
       (viewId \<in> set (map view_id (views s)),
        s\<lparr>views := filter (\<lambda>v. view_id v \<noteq> viewId) (views s)\<rparr>))"

subsection \<open>ContentSlotRepository\<close>

text \<open>Modelled from the spec: ContentSlotRepository.getContentSlotsByViewId, get-by-parent-id.\<close>

definition contentSlotRepository_getContentSlotsByViewId :: "nat \<Rightarrow> contentSlot list io" where
  "contentSlotRepository_getContentSlotsByViewId viewId =
     request (GetContentSlotsByViewId viewId) (\<lambda>s.
       (filter (\<lambda>c. slot_viewId c = viewId) (contentSlots s), s))"

text \<open>Modelled from the spec: ContentSlotRepository.getContentSlot, get-by-id yielding the record or not-found.\<close>

definition contentSlotRepository_getContentSlot :: "nat \<Rightarrow> contentSlot io" where
  "contentSlotRepository_getContentSlot contentSlotId =
     orNotFound (request (GetContentSlot contentSlotId) (\<lambda>s.
       (find (\<lambda>c. slot_id c = contentSlotId) (contentSlots s), s)))"

text \<open>Modelled from the spec: ContentSlotRepository.createContentSlot, create(fields) with a fresh identifier; the service reads the identifier of the record it yields.\<close>

definition contentSlotRepository_createContentSlot ::
  "string \<Rightarrow> nat \<Rightarrow> int \<Rightarrow> int \<Rightarrow> int \<Rightarrow> int \<Rightarrow> contentSlot io" where
  "contentSlotRepository_createContentSlot componentType viewId columnStart rowStart columnEnd rowEnd =
     request CreateContentSlot (\<lambda>s.
       (let c = \<lparr>slot_id = nextContentSlotId s, slot_componentType = componentType,
                 slot_viewId = viewId, slot_columnStart = columnStart, slot_rowStart = rowStart,
                 slot_columnEnd = columnEnd, slot_rowEnd = rowEnd\<rparr>
        in (c, s\<lparr>contentSlots := contentSlots s @ [c],
                 nextContentSlotId := Suc (nextContentSlotId s)\<rparr>)))"

text \<open>Modelled from the spec: ContentSlotRepository.updateContentSlot, update(id, fields) yielding the identifier or not-found; the service ignores the result.\<close>

definition contentSlotRepository_updateContentSlot ::
  "nat \<Rightarrow> string \<Rightarrow> nat \<Rightarrow> int \<Rightarrow> int \<Rightarrow> int \<Rightarrow> int \<Rightarrow> nat option io" where
  "contentSlotRepository_updateContentSlot contentSlotId componentType viewId columnStart rowStart columnEnd rowEnd =
     request (UpdateContentSlot contentSlotId) (\<lambda>s.
       (if contentSlotId \<in> set (map slot_id (contentSlots s)) then Some contentSlotId else None,
        s\<lparr>contentSlots := map (\<lambda>c. if slot_id c = contentSlotId
              then c\<lparr>slot_componentType := componentType, slot_viewId := viewId,
                     slot_columnStart := columnStart, slot_rowStart := rowStart,
                     slot_columnEnd := columnEnd, slot_rowEnd := rowEnd\<rparr>
              else c) (contentSlots s)\<rparr>))"

text \<open>Modelled from the spec: ContentSlotRepository.deleteContentSlot, delete(id) yielding a boolean success, without cascade.\<close>

definition contentSlotRepository_deleteContentSlot :: "nat \<Rightarrow> bool io" where
  "contentSlotRepository_deleteContentSlot contentSlotId =
     request (DeleteContentSlot contentSlotId) (\<lambda>s.
       (contentSlotId \<in> set (map slot_id (contentSlots s)),
        s\<lparr>contentSlots := filter (\<lambda>c. slot_id c \<noteq> contentSlotId) (contentSlots s)\<rparr>))"

subsection \<open>ContentSlotOptionRepository\<close>

text \<open>Modelled from the spec: the options that storage holds for a slot, as get-all-for-slot reads them.\<close>

definition optionsOf :: "nat \<Rightarrow> state \<Rightarrow> optionMap" where
  "optionsOf contentSlotId s =
     map snd (filter (\<lambda>row. fst row = contentSlotId) (contentSlotOptions s))"

text \<open>Modelled from the spec: ContentSlotOptionRepository.getOptionsForContentSlot, get-all-for-slot yielding the mapping.\<close>

definition contentSlotOptionRepository_getOptionsForContentSlot :: "nat \<Rightarrow> optionMap io" where
  "contentSlotOptionRepository_getOptionsForContentSlot contentSlotId =
     request (GetOptionsForContentSlot contentSlotId) (\<lambda>s. (optionsOf contentSlotId s, s))"

text \<open>Modelled from the spec: ContentSlotOptionRepository.deleteOptionsForContentSlot, which deletes all options of a slot.\<close>

definition contentSlotOptionRepository_deleteOptionsForContentSlot :: "nat \<Rightarrow> unit io" where
  "contentSlotOptionRepository_deleteOptionsForContentSlot contentSlotId =
     request (DeleteOptionsForContentSlot contentSlotId) (\<lambda>s.
       ((), s\<lparr>contentSlotOptions :=
                filter (\<lambda>row. fst row \<noteq> contentSlotId) (contentSlotOptions s)\<rparr>))"

text \<open>Modelled from the spec: ContentSlotOptionRepository.deleteOption, delete(slotId, key).\<close>

definition contentSlotOptionRepository_deleteOption :: "nat \<Rightarrow> string \<Rightarrow> unit io" where
  "contentSlotOptionRepository_deleteOption contentSlotId key =
     request (DeleteOption contentSlotId key) (\<lambda>s.
       ((), s\<lparr>contentSlotOptions :=
                filter (\<lambda>row. \<not> (fst row = contentSlotId \<and> fst (snd row) = key))
                  (contentSlotOptions s)\<rparr>))"

text \<open>Modelled from the spec: ContentSlotOptionRepository.updateOption, update(slotId, key, value).\<close>

definition contentSlotOptionRepository_updateOption :: "nat \<Rightarrow> string \<Rightarrow> scalar \<Rightarrow> unit io" where
  "contentSlotOptionRepository_updateOption contentSlotId key val =
     request (UpdateOption contentSlotId key) (\<lambda>s.
       ((), s\<lparr>contentSlotOptions :=
                map (\<lambda>row. if fst row = contentSlotId \<and> fst (snd row) = key
                            then (contentSlotId, key, val) else row)
                  (contentSlotOptions s)\<rparr>))"

text \<open>Modelled from the spec: ContentSlotOptionRepository.createOption, create(slotId, key, value).\<close>

definition contentSlotOptionRepository_createOption :: "nat \<Rightarrow> string \<Rightarrow> scalar \<Rightarrow> unit io" where
  "contentSlotOptionRepository_createOption contentSlotId key val =
     request (CreateOption contentSlotId key) (\<lambda>s.
       ((), s\<lparr>contentSlotOptions := contentSlotOptions s @ [(contentSlotId, key, val)]\<rparr>))"

section \<open>DisplayService\<close>

text \<open>
  \<^verbatim>\<open>this.emit(name, payload)\<close> of \<^verbatim>\<open>EventEmitter\<close> calls the listeners of the event at once,
  in the order of their registration, and yields whether the event has a listener. A
  listener that throws makes \<^verbatim>\<open>emit\<close> throw: the listeners before it have been called,
  the listeners after it are not.
\<close>

definition listenersOf :: "event \<Rightarrow> state \<Rightarrow> listener list" where
  "listenersOf ev s = map snd (filter (\<lambda>l. fst l = ev) (listeners s))"

text \<open>The listeners that a call of \<^verbatim>\<open>emit\<close> reaches: all of them up to the first that throws.\<close>

definition reached :: "listener list \<Rightarrow> listener list" where
  "reached ls = takeWhile (\<lambda>l. l \<noteq> Throws) ls @ take 1 (dropWhile (\<lambda>l. l \<noteq> Throws) ls)"

definition emit :: "event \<Rightarrow> payload \<Rightarrow> bool io" where
  "emit ev p s =
     (let ls = listenersOf ev s;
          s1 = s\<lparr>trace := trace s @ [Emit ev],
                 delivered := delivered s @ map (\<lambda>l. (ev, p)) (reached ls)\<rparr>
      in if Throws \<in> set ls then (Inl ListenerError, s1)
         else (Inr (ls \<noteq> []), s1\<lparr>emitted := emitted s1 @ [(ev, p)]\<rparr>))"

definition getDisplayById :: "nat \<Rightarrow> display option io" where
  "getDisplayById displayId = displayRepository_getDisplayById displayId"

definition createDisplay ::
  "string \<Rightarrow> bool \<Rightarrow> string \<Rightarrow> string \<Rightarrow> string \<Rightarrow> display option io" where
  "createDisplay name active clientId description location =
     andThen (displayRepository_createDisplay name active clientId description location) (\<lambda>i.
     andThen (getDisplayById i) (\<lambda>newDisplay.
     andThen (emit DisplayCreated (DisplayPayload newDisplay)) (\<lambda>_.
     succeed newDisplay)))"

definition deleteDisplay :: "nat \<Rightarrow> bool io" where
  "deleteDisplay displayId =
     andThen (displayRepository_deleteDisplay displayId) (\<lambda>result.
       if result
       then andThen (emit DisplayDeleted (DeleteResult result)) (\<lambda>_. succeed result)
       else succeed result)"

text \<open>\<^verbatim>\<open>!id\<close>: \<^verbatim>\<open>null\<close> and the number 0 are falsy.\<close>

definition falsy :: "nat option \<Rightarrow> bool" where
  "falsy i = (case i of None \<Rightarrow> True | Some n \<Rightarrow> n = 0)"

definition updateDisplay ::
  "nat \<Rightarrow> string \<Rightarrow> bool \<Rightarrow> string \<Rightarrow> string \<Rightarrow> string \<Rightarrow> display option io" where
  "updateDisplay displayId name active clientId description location =
     andThen (displayRepository_updateDisplay displayId name active clientId description location) (\<lambda>i.
       if falsy i then getDisplayById displayId
       else andThen (getDisplayById (case i of Some n \<Rightarrow> n | None \<Rightarrow> 0)) (\<lambda>updatedDisplay.
            andThen (emit DisplayUpdated (DisplayPayload updatedDisplay)) (\<lambda>_.
            succeed updatedDisplay)))"

definition createView :: "string \<Rightarrow> int \<Rightarrow> int \<Rightarrow> nat \<Rightarrow> string \<Rightarrow> view io" where
  "createView name columns rows displayId screenType =
     andThen (viewRepository_getViewsByDisplayIdAndScreenType displayId screenType) (\<lambda>vs.
       viewRepository_createView name columns rows displayId (length vs + 1) screenType)"

text \<open>The loop of \<^verbatim>\<open>getContentSlotsForView\<close>: each slot with its options as an object.\<close>

fun enrich :: "contentSlot list \<Rightarrow> enrichedContentSlot list io" where
  "enrich [] s = (Inr [], s)"
| "enrich (c # cs) s =
     (case contentSlotOptionRepository_getOptionsForContentSlot (slot_id c) s of
        (Inl e, s1) \<Rightarrow> (Inl e, s1)
      | (Inr allOptions, s1) \<Rightarrow>
          (case enrich cs s1 of
             (Inl e, s2) \<Rightarrow> (Inl e, s2)
           | (Inr enriched, s2) \<Rightarrow> (Inr ((c, allOptions) # enriched), s2)))"

definition getContentSlotsForView :: "nat \<Rightarrow> enrichedContentSlot list io" where
  "getContentSlotsForView viewId =
     andThen (contentSlotRepository_getContentSlotsByViewId viewId) enrich"

text \<open>
  \<^verbatim>\<open>Promise.all\<close> starts both reads; the view and its slots are paired when both have
  succeeded, and the first of the two failures is the result otherwise.
\<close>

definition getView :: "nat \<Rightarrow> enrichedView io" where
  "getView viewId s =
     (case viewRepository_getViewById viewId s of
        (r1, s1) \<Rightarrow>
          (case getContentSlotsForView viewId s1 of
             (r2, s2) \<Rightarrow>
               (case r1 of
                  Inl e \<Rightarrow> (Inl e, s2)
                | Inr v \<Rightarrow> (case r2 of Inl e \<Rightarrow> (Inl e, s2) | Inr cs \<Rightarrow> (Inr (v, cs), s2)))))"

definition deleteView :: "nat \<Rightarrow> bool option io" where
  "deleteView viewId =
     andThen (getView viewId) (\<lambda>v.
     andThen (getDisplayById (view_displayId (fst v))) (\<lambda>d.
       catchAndLog
         (andThen (viewRepository_deleteView viewId) (\<lambda>_.
            emit ViewsUpdated (DisplayPayload d)))))"

subsection \<open>The option set reconciler\<close>

text \<open>
  What \<^verbatim>\<open>setOptionsForContentSlot\<close> does with the answer of its first call, the two
  \<^verbatim>\<open>then\<close> handlers: the two loops, and the read at the end.
\<close>

definition writeOptions :: "nat \<Rightarrow> optionMap \<Rightarrow> optionMap \<Rightarrow> optionMap io" where
  "writeOptions contentSlotId opts existingOptions =
     andThen (forEach (map fst existingOptions) (\<lambda>key.
                if key \<notin> set (map fst opts)
                then contentSlotOptionRepository_deleteOption contentSlotId key
                else succeed ())) (\<lambda>_.
     andThen (forEach opts (\<lambda>(key, val).
                if key \<in> set (map fst existingOptions)
                then contentSlotOptionRepository_updateOption contentSlotId key val
                else contentSlotOptionRepository_createOption contentSlotId key val)) (\<lambda>_.
     contentSlotOptionRepository_getOptionsForContentSlot contentSlotId))"

definition setOptionsForContentSlot :: "nat \<Rightarrow> optionMap \<Rightarrow> optionMap io" where
  "setOptionsForContentSlot contentSlotId opts =
     andThen (contentSlotOptionRepository_getOptionsForContentSlot contentSlotId)
       (writeOptions contentSlotId opts)"

subsection \<open>The content slot reconciler\<close>

definition removedComponents :: "contentSlot list \<Rightarrow> descriptor list \<Rightarrow> nat list" where
  "removedComponents existingContentSlots newContentSlots =
     (let existingContentSlotIds = map slot_id existingContentSlots;
          submittedContentSlotIds = List.map_filter desc_id newContentSlots
      in filter (\<lambda>i. i \<notin> set submittedContentSlotIds) existingContentSlotIds)"

text \<open>The body of the first loop: the options of a removed slot, then the slot.\<close>

definition removeContentSlot :: "nat \<Rightarrow> unit io" where
  "removeContentSlot contentSlotId =
     andThen (contentSlotOptionRepository_deleteOptionsForContentSlot contentSlotId) (\<lambda>_.
     andThen (contentSlotRepository_deleteContentSlot contentSlotId) (\<lambda>_. succeed ()))"

text \<open>\<^verbatim>\<open>contentSlot.options || {}\<close>\<close>

definition optionsOrEmpty :: "descriptor \<Rightarrow> optionMap" where
  "optionsOrEmpty contentSlot = (case desc_options contentSlot of None \<Rightarrow> [] | Some m \<Rightarrow> m)"

text \<open>
  A call of \<^verbatim>\<open>this.setOptionsForContentSlot\<close> without \<^verbatim>\<open>await\<close>: the read of the stored
  options is made at once, the two loops and the last read are pending.
\<close>

definition startSetOptionsForContentSlot :: "nat \<Rightarrow> optionMap \<Rightarrow> unit io" where
  "startSetOptionsForContentSlot contentSlotId opts =
     detach (contentSlotOptionRepository_getOptionsForContentSlot contentSlotId)
       (SetOptionsTask contentSlotId opts)"

text \<open>
  The body of the second loop. The two calls of \<^verbatim>\<open>this.setOptionsForContentSlot\<close> stand
  there without \<^verbatim>\<open>await\<close>: the loop goes on, and the function returns, while they run.
\<close>

definition placeContentSlot :: "nat \<Rightarrow> descriptor \<Rightarrow> unit io" where
  "placeContentSlot viewId contentSlot =
     (case desc_id contentSlot of
        None \<Rightarrow>
          andThen (contentSlotRepository_createContentSlot (desc_componentType contentSlot) viewId
                     (desc_columnStart contentSlot) (desc_rowStart contentSlot)
                     (desc_columnEnd contentSlot) (desc_rowEnd contentSlot)) (\<lambda>newContentSlot.
            startSetOptionsForContentSlot (slot_id newContentSlot) (optionsOrEmpty contentSlot))
      | Some i \<Rightarrow>
          andThen (contentSlotRepository_getContentSlot i) (\<lambda>existingContentSlot.
          andThen (contentSlotRepository_updateContentSlot (slot_id existingContentSlot)
                     (desc_componentType contentSlot) viewId
                     (desc_columnStart contentSlot) (desc_rowStart contentSlot)
                     (desc_columnEnd contentSlot) (desc_rowEnd contentSlot)) (\<lambda>_.
            startSetOptionsForContentSlot (slot_id existingContentSlot) (optionsOrEmpty contentSlot))))"

definition updateContentSlotsForView :: "nat \<Rightarrow> descriptor list \<Rightarrow> unit io" where
  "updateContentSlotsForView viewId newContentSlots =
     andThen (contentSlotRepository_getContentSlotsByViewId viewId) (\<lambda>existingContentSlots.
     andThen (forEach (removedComponents existingContentSlots newContentSlots) removeContentSlot) (\<lambda>_.
     forEach newContentSlots (placeContentSlot viewId)))"

definition updateView :: "nat \<Rightarrow> string \<Rightarrow> int \<Rightarrow> int \<Rightarrow> descriptor list \<Rightarrow> enrichedView io" where
  "updateView viewId name columns rows newContentSlots =
     andThen (viewRepository_getViewById viewId) (\<lambda>v.
     andThen (viewRepository_updateView (view_id v) name columns rows
                (view_displayId v) (view_order v) (view_screenType v)) (\<lambda>updatedView.
     andThen (updateContentSlotsForView (view_id updatedView) newContentSlots) (\<lambda>_.
     andThen (getView viewId) (\<lambda>updatedView.
     andThen (detach (getDisplayById (view_displayId (fst updatedView))) NotifyViewsUpdated) (\<lambda>_.
     succeed updatedView)))))"

subsection \<open>Calls that were not awaited\<close>

text \<open>
  In the source a call that is not awaited runs on its own, and nothing waits for its end:
  when its repository calls are answered depends on the storage, and they may be answered
  while the service goes on or after it has returned. Here the first call is answered at
  once, and the rest of the detached call is pending until \<open>settle\<close> runs the pending tasks
  one after the other: this is the course of events when the answers to a detached call
  take longer than the calls that the service awaits. The steps that
  \<^verbatim>\<open>updateContentSlotsForView\<close> awaits after it has started an option reconciliation work on
  the slot table, and the reconciliation works on the options of its own slot. The
  rejection of an option reconciliation has no handler and reaches nobody; the
  notification of \<^verbatim>\<open>updateView\<close> logs its own failure.
\<close>

fun runTask :: "task \<Rightarrow> state \<Rightarrow> state" where
  "runTask (SetOptionsTask contentSlotId opts answer) s =
     snd (andThen (settled answer) (writeOptions contentSlotId opts) s)"
| "runTask (NotifyViewsUpdated answer) s =
     snd (catchAndLog (andThen (settled answer) (\<lambda>d.
            emit ViewsUpdated (DisplayPayload d))) s)"

definition settle :: "state \<Rightarrow> state" where
  "settle s = fold runTask (pending s) (s\<lparr>pending := []\<rparr>)"

subsection \<open>Initial state\<close>

definition emptyState :: state where
  "emptyState =
     \<lparr>displays = [], views = [], contentSlots = [], contentSlotOptions = [],
      nextDisplayId = 1, nextViewId = 1, nextContentSlotId = 1,
      faulty = [], listeners = [], trace = [], emitted = [], delivered = [], logged = [],
      pending = []\<rparr>"

section \<open>Examples\<close>

text \<open>Scenario B of the specification: slot 7 holds the options a = 1 and b = 2.\<close>

definition scenarioB :: state where
  "scenarioB = emptyState\<lparr>contentSlotOptions := [(7, ''a'', Str ''1''), (7, ''b'', Str ''2'')]\<rparr>"

definition desiredB :: optionMap where
  "desiredB = [(''b'', Str ''3''), (''c'', Str ''4'')]"

text \<open>A store with one display, created through the service.\<close>

definition oneDisplay :: state where
  "oneDisplay = snd (createDisplay ''lobby'' True ''client-1'' '''' '''' emptyState)"

text \<open>
  Three views created one after the other in the same group of display 1, then the first
  two deleted: the view left has position 3.
\<close>

definition threeViews :: state where
  "threeViews =
     snd (createView ''c'' 2 2 1 ''idle''
       (snd (createView ''b'' 2 2 1 ''idle''
         (snd (createView ''a'' 2 2 1 ''idle'' oneDisplay)))))"

definition lastViewLeft :: state where
  "lastViewLeft = snd (deleteView 2 (snd (deleteView 1 threeViews)))"

text \<open>Display 1 with one view, created through the service.\<close>

definition oneView :: state where
  "oneView = snd (createView ''a'' 2 2 1 ''idle'' oneDisplay)"

text \<open>The same store when the lookup of display 1 fails, when storage rejects the deletion
  of view 1, and when the listener of \<^verbatim>\<open>views_updated\<close> throws.\<close>

definition lookupFails :: state where
  "lookupFails = oneView\<lparr>faulty := [GetDisplayById 1]\<rparr>"

definition deletionFails :: state where
  "deletionFails = oneView\<lparr>faulty := [DeleteView 1]\<rparr>"

definition listenerThrows :: state where
  "listenerThrows = oneView\<lparr>listeners := [(ViewsUpdated, Throws)]\<rparr>"

text \<open>A submitted descriptor without identity, and display 1 with two views, the second of
  which holds one slot (identifier 1) created from that descriptor.\<close>

definition clock :: descriptor where
  "clock = \<lparr>desc_id = None, desc_componentType = ''clock'', desc_viewId = None,
             desc_columnStart = 1, desc_rowStart = 1, desc_columnEnd = 2, desc_rowEnd = 2,
             desc_options = Some [(''color'', Str ''blue'')]\<rparr>"

definition twoViews :: state where
  "twoViews = snd (createView ''b'' 2 2 1 ''idle'' oneView)"

definition slotInSecondView :: state where
  "slotInSecondView = settle (snd (updateContentSlotsForView 2 [clock] twoViews))"

text \<open>Scenario A of the specification: view 1 holds slot 1 with the option color = red and
  slot 2, here with an option of its own; the desired list keeps slot 1 and adds a clock.\<close>

definition scenarioA :: state where
  "scenarioA =
     oneView\<lparr>contentSlots :=
        [\<lparr>slot_id = 1, slot_componentType = ''text'', slot_viewId = 1, slot_columnStart = 1,
          slot_rowStart = 1, slot_columnEnd = 2, slot_rowEnd = 2\<rparr>,
         \<lparr>slot_id = 2, slot_componentType = ''image'', slot_viewId = 1, slot_columnStart = 2,
          slot_rowStart = 1, slot_columnEnd = 3, slot_rowEnd = 2\<rparr>],
       contentSlotOptions := [(1, ''color'', Str ''red''), (2, ''size'', Num 3)],
       nextContentSlotId := 3\<rparr>"

definition desiredA :: "descriptor list" where
  "desiredA =
     [\<lparr>desc_id = Some 1, desc_componentType = ''text'', desc_viewId = Some 1,
       desc_columnStart = 1, desc_rowStart = 1, desc_columnEnd = 2, desc_rowEnd = 2,
       desc_options = Some [(''color'', Str ''blue'')]\<rparr>,
      \<lparr>desc_id = None, desc_componentType = ''clock'', desc_viewId = None,
       desc_columnStart = 2, desc_rowStart = 1, desc_columnEnd = 3, desc_rowEnd = 2,
       desc_options = None\<rparr>]"

text \<open>Scenario A when storage rejects the update of the option color of slot 1.\<close>

definition optionUpdateFails :: state where
  "optionUpdateFails = scenarioA\<lparr>faulty := [UpdateOption 1 ''color'']\<rparr>"

text \<open>Scenario C of the specification: a new slot, then a descriptor whose identity 99 is
  not in storage.\<close>

definition desiredC :: "descriptor list" where
  "desiredC = [clock, clock\<lparr>desc_id := Some 99\<rparr>]"

text \<open>The desired list of scenario A without the new slot: slot 1 with color = blue, and
  every descriptor carries an identity.\<close>

definition desiredKept :: "descriptor list" where
  "desiredKept = [hd desiredA]"

text \<open>Slot 1 again, with ten options, nine of which it did not have.\<close>

definition desiredRestyled :: "descriptor list" where
  "desiredRestyled =
     [(hd desiredA)\<lparr>desc_options :=
        Some [(''color'', Str ''blue''), (''size'', Num 2), (''font'', Str ''mono''),
              (''align'', Str ''left''), (''border'', Boolean True), (''label'', Str ''exit''),
              (''icon'', Str ''door''), (''title'', Str ''way out''), (''unit'', Null),
              (''theme'', Str ''dark'')]\<rparr>]"

section \<open>Auxiliary notions\<close>

text \<open>The calls of \<open>s'\<close> continue those of \<open>s\<close>.\<close>

definition extends :: "state \<Rightarrow> state \<Rightarrow> bool" where
  "extends s s' = (\<exists>calls. trace s' = trace s @ calls)"

text \<open>The calls made between \<open>s\<close> and \<open>s'\<close> all satisfy \<open>P\<close>.\<close>

definition extendsBy :: "(call \<Rightarrow> bool) \<Rightarrow> state \<Rightarrow> state \<Rightarrow> bool" where
  "extendsBy P s s' = (\<exists>calls. trace s' = trace s @ calls \<and> list_all P calls)"

text \<open>Nothing but the record of calls differs between \<open>s\<close> and \<open>s'\<close>.\<close>

definition readsOnly :: "state \<Rightarrow> state \<Rightarrow> bool" where
  "readsOnly s s' = (\<exists>calls. s' = s\<lparr>trace := trace s @ calls\<rparr>)"

text \<open>The calls of the removal loop for a list of slot identifiers: for each slot the
  deletion of its options, then the deletion of the slot.\<close>

definition removalCalls :: "nat list \<Rightarrow> call list" where
  "removalCalls ids = concat (map (\<lambda>i. [DeleteOptionsForContentSlot i, DeleteContentSlot i]) ids)"

fun removalCall :: "call \<Rightarrow> bool" where
  "removalCall (DeleteOptionsForContentSlot i) = True"
| "removalCall (DeleteContentSlot i) = True"
| "removalCall c = False"

text \<open>The slots that \<^verbatim>\<open>updateContentSlotsForView\<close> computes as removed in a state: the
  stored slots of the view whose identity no descriptor carries.\<close>

definition removedSlots :: "nat \<Rightarrow> descriptor list \<Rightarrow> state \<Rightarrow> nat list" where
  "removedSlots viewId newContentSlots s =
     removedComponents (filter (\<lambda>c. slot_viewId c = viewId) (contentSlots s)) newContentSlots"

text \<open>The slot whose options a pending task sets, if it is an option reconciliation.\<close>

fun taskSlot :: "task \<Rightarrow> nat option" where
  "taskSlot (SetOptionsTask i opts answer) = Some i"
| "taskSlot (NotifyViewsUpdated answer) = None"

text \<open>Identifiers are handed out by the counter: no stored slot has one that is still to come.\<close>

definition slotIdsIssued :: "state \<Rightarrow> bool" where
  "slotIdsIssued s = list_all (\<lambda>c. slot_id c < nextContentSlotId s) (contentSlots s)"

text \<open>The row that the updates of the second loop leave in place of a stored row: every
  descriptor that carries the row's identity overwrites its component type, its view and
  its grid placement, in the order of the list.\<close>

fun placedRow :: "nat \<Rightarrow> descriptor list \<Rightarrow> contentSlot \<Rightarrow> contentSlot" where
  "placedRow viewId [] c = c"
| "placedRow viewId (d # ds) c =
     placedRow viewId ds
       (if desc_id d = Some (slot_id c)
        then c\<lparr>slot_componentType := desc_componentType d, slot_viewId := viewId,
               slot_columnStart := desc_columnStart d, slot_rowStart := desc_rowStart d,
               slot_columnEnd := desc_columnEnd d, slot_rowEnd := desc_rowEnd d\<rparr>
        else c)"

text \<open>What is compared of a stored slot and of a descriptor: the component type and the
  grid placement.\<close>

definition slotContent :: "contentSlot \<Rightarrow> string \<times> int \<times> int \<times> int \<times> int" where
  "slotContent c =
     (slot_componentType c, slot_columnStart c, slot_rowStart c, slot_columnEnd c, slot_rowEnd c)"

definition descContent :: "descriptor \<Rightarrow> string \<times> int \<times> int \<times> int \<times> int" where
  "descContent d =
     (desc_componentType d, desc_columnStart d, desc_rowStart d, desc_columnEnd d, desc_rowEnd d)"

text \<open>The row that a descriptor asks for in a view, under an identity.\<close>

definition desiredRow :: "nat \<Rightarrow> nat \<Rightarrow> descriptor \<Rightarrow> contentSlot" where
  "desiredRow viewId i d =
     \<lparr>slot_id = i, slot_componentType = desc_componentType d, slot_viewId = viewId,
      slot_columnStart = desc_columnStart d, slot_rowStart = desc_rowStart d,
      slot_columnEnd = desc_columnEnd d, slot_rowEnd = desc_rowEnd d\<rparr>"

text \<open>The identity under which each descriptor of a list is stored: its own, or the next
  one that the counter hands out.\<close>

fun assigned :: "nat \<Rightarrow> descriptor list \<Rightarrow> (nat \<times> descriptor) list" where
  "assigned n [] = []"
| "assigned n (d # ds) =
     (case desc_id d of
        None \<Rightarrow> (n, d) # assigned (Suc n) ds
      | Some i \<Rightarrow> (i, d) # assigned n ds)"


text \<open>The tasks that the second loop leaves pending for descriptors under their identities,
  in a state \<open>s\<close> that holds the faults and the stored options of the moment: each task
  has the answer of the read that was made when it was started.\<close>

definition optionTasks :: "state \<Rightarrow> (nat \<times> descriptor) list \<Rightarrow> task list" where
  "optionTasks s A =
     map (\<lambda>(i, d). SetOptionsTask i (optionsOrEmpty d)
            (fst (contentSlotOptionRepository_getOptionsForContentSlot i s))) A"

text \<open>The calls that create or delete a row of a table.\<close>

fun createOrDelete :: "call \<Rightarrow> bool" where
  "createOrDelete CreateDisplay = True"
| "createOrDelete (DeleteDisplay i) = True"
| "createOrDelete CreateView = True"
| "createOrDelete (DeleteView i) = True"
| "createOrDelete CreateContentSlot = True"
| "createOrDelete (DeleteContentSlot i) = True"
| "createOrDelete (DeleteOptionsForContentSlot i) = True"
| "createOrDelete (DeleteOption i k) = True"
| "createOrDelete (CreateOption i k) = True"
| "createOrDelete c = False"

section \<open>The option set reconciler converges\<close>


lemma optionsOf_cong: "contentSlotOptions s' = contentSlotOptions s \<Longrightarrow> optionsOf c s' = optionsOf c s"
  by (simp add: optionsOf_def)

lemma deleteOption_result:
  "contentSlotOptionRepository_deleteOption c k s = (Inr u, s') \<Longrightarrow>
     DeleteOption c k \<notin> set (faulty s) \<and>
     s' = s\<lparr>trace := trace s @ [DeleteOption c k],
            contentSlotOptions := filter (\<lambda>row. \<not> (fst row = c \<and> fst (snd row) = k)) (contentSlotOptions s)\<rparr>"
  by (auto simp: contentSlotOptionRepository_deleteOption_def request_def Let_def split: if_splits)

lemma updateOption_result:
  "contentSlotOptionRepository_updateOption c k v s = (Inr u, s') \<Longrightarrow>
     UpdateOption c k \<notin> set (faulty s) \<and>
     s' = s\<lparr>trace := trace s @ [UpdateOption c k],
            contentSlotOptions := map (\<lambda>row. if fst row = c \<and> fst (snd row) = k then (c, k, v) else row) (contentSlotOptions s)\<rparr>"
  by (auto simp: contentSlotOptionRepository_updateOption_def request_def Let_def split: if_splits)

lemma createOption_result:
  "contentSlotOptionRepository_createOption c k v s = (Inr u, s') \<Longrightarrow>
     CreateOption c k \<notin> set (faulty s) \<and>
     s' = s\<lparr>trace := trace s @ [CreateOption c k],
            contentSlotOptions := contentSlotOptions s @ [(c, k, v)]\<rparr>"
  by (auto simp: contentSlotOptionRepository_createOption_def request_def Let_def split: if_splits)

lemma getOptions_result:
  "contentSlotOptionRepository_getOptionsForContentSlot c s = (Inr m, s') \<Longrightarrow>
     GetOptionsForContentSlot c \<notin> set (faulty s) \<and> m = optionsOf c s \<and>
     s' = s\<lparr>trace := trace s @ [GetOptionsForContentSlot c]\<rparr>"
  by (auto simp: contentSlotOptionRepository_getOptionsForContentSlot_def request_def Let_def optionsOf_def split: if_splits)

lemma forEach_delete:
  "forEach ks (\<lambda>key. if key \<notin> K then contentSlotOptionRepository_deleteOption c key else succeed ()) s = (Inr u, s') \<Longrightarrow>
   contentSlotOptions s' =
     filter (\<lambda>row. \<not> (fst row = c \<and> fst (snd row) \<in> set ks \<and> fst (snd row) \<notin> K)) (contentSlotOptions s)"
proof (induction ks arbitrary: s)
  case Nil
  then show ?case by simp
next
  case (Cons k ks)
  show ?case
  proof (cases "k \<in> K")
    case True
    with Cons.prems have "forEach ks (\<lambda>key. if key \<notin> K then contentSlotOptionRepository_deleteOption c key else succeed ()) s = (Inr u, s')"
      by (simp add: succeed_def)
    from Cons.IH[OF this] True show ?thesis
      by (auto intro: filter_cong)
  next
    case False
    with Cons.prems obtain s1 where
      d: "contentSlotOptionRepository_deleteOption c k s = (Inr (), s1)" and
      r: "forEach ks (\<lambda>key. if key \<notin> K then contentSlotOptionRepository_deleteOption c key else succeed ()) s1 = (Inr u, s')"
      by (auto split: prod.splits sum.splits)
    from deleteOption_result[OF d] Cons.IH[OF r] False show ?thesis
      by (auto intro!: filter_cong)
  qed
qed

lemma optionsOf_after_delete:
  assumes "forEach (map fst (optionsOf c s)) (\<lambda>key. if key \<notin> K then contentSlotOptionRepository_deleteOption c key else succeed ()) s1 = (Inr u, s')"
    and "contentSlotOptions s1 = contentSlotOptions s"
  shows "optionsOf c s' = filter (\<lambda>kv. fst kv \<in> K) (optionsOf c s)"
proof -
  have "contentSlotOptions s' =
     filter (\<lambda>row. \<not> (fst row = c \<and> fst (snd row) \<in> set (map fst (optionsOf c s)) \<and> fst (snd row) \<notin> K)) (contentSlotOptions s)"
    using forEach_delete[OF assms(1)] assms(2) by simp
  then show ?thesis
    by (auto simp: optionsOf_def filter_map o_def intro!: arg_cong[where f="map snd"] filter_cong)
qed

lemma keys_update:
  "map fst (map (\<lambda>kv. if fst kv = k then (k, v) else kv) xs) = map fst xs"
  by (induction xs) auto

lemma rows_update:
  "map snd (filter (\<lambda>row. fst row = c)
      (map (\<lambda>row. if fst row = c \<and> fst (snd row) = k then (c, k, v) else row) rows)) =
   map (\<lambda>kv. if fst kv = k then (k, v) else kv) (map snd (filter (\<lambda>row. fst row = c) rows))"
  by (induction rows) auto


lemma forEach_put:
  assumes "forEach opts (\<lambda>(key, val).
                if key \<in> E
                then contentSlotOptionRepository_updateOption c key val
                else contentSlotOptionRepository_createOption c key val) s = (Inr u, s')"
    and "distinct (map fst opts)"
    and "\<forall>k \<in> set (map fst opts). (k \<in> E) = (k \<in> set (map fst (optionsOf c s)))"
  shows "set (optionsOf c s') = {kv \<in> set (optionsOf c s). fst kv \<notin> set (map fst opts)} \<union> set opts"
  using assms
proof (induction opts arbitrary: s)
  case Nil
  then show ?case by simp
next
  case (Cons kv opts)
  obtain k v where kv: "kv = (k, v)" by (cases kv)
  let ?body = "(\<lambda>(key, val).
                if key \<in> E
                then contentSlotOptionRepository_updateOption c key val
                else contentSlotOptionRepository_createOption c key val)"
  from Cons.prems(1) kv obtain s1 where
    step: "?body (k, v) s = (Inr (), s1)" and rest: "forEach opts ?body s1 = (Inr u, s')"
    by (auto split: prod.splits sum.splits)
  have dist: "distinct (map fst opts)" and knot: "k \<notin> set (map fst opts)"
    using Cons.prems(2) kv by auto
  show ?case
  proof (cases "k \<in> E")
    case True
    with step have "contentSlotOptionRepository_updateOption c k v s = (Inr (), s1)" by simp
    from updateOption_result[OF this]
    have o1: "optionsOf c s1 = map (\<lambda>kv'. if fst kv' = k then (k, v) else kv') (optionsOf c s)"
      by (simp add: optionsOf_def rows_update)
    have kin: "k \<in> set (map fst (optionsOf c s))"
      using Cons.prems(3) True kv by simp
    have keys: "set (map fst (optionsOf c s1)) = set (map fst (optionsOf c s))"
      unfolding o1 by (simp only: keys_update)
    have "\<forall>k' \<in> set (map fst opts). (k' \<in> E) = (k' \<in> set (map fst (optionsOf c s1)))"
      using Cons.prems(3) keys by simp
    from Cons.IH[OF rest dist this]
    have "set (optionsOf c s') = {kv \<in> set (optionsOf c s1). fst kv \<notin> set (map fst opts)} \<union> set opts" .
    moreover have "{kv \<in> set (optionsOf c s1). fst kv \<notin> set (map fst opts)}
        = {kv \<in> set (optionsOf c s). fst kv \<notin> set (map fst opts) \<and> fst kv \<noteq> k} \<union> {(k, v)}"
      using kin knot unfolding o1 by (auto simp: image_iff)
    ultimately show ?thesis using kv by auto
  next
    case False
    with step have "contentSlotOptionRepository_createOption c k v s = (Inr (), s1)" by simp
    from createOption_result[OF this]
    have o1: "optionsOf c s1 = optionsOf c s @ [(k, v)]"
      by (auto simp: optionsOf_def)
    have knin: "k \<notin> set (map fst (optionsOf c s))"
      using Cons.prems(3) False kv by simp
    have "\<forall>k' \<in> set (map fst opts). (k' \<in> E) = (k' \<in> set (map fst (optionsOf c s1)))"
      using Cons.prems(3) knot unfolding o1 by auto
    from Cons.IH[OF rest dist this]
    have "set (optionsOf c s') = {kv \<in> set (optionsOf c s1). fst kv \<notin> set (map fst opts)} \<union> set opts" .
    moreover have "{kv \<in> set (optionsOf c s1). fst kv \<notin> set (map fst opts)}
        = {kv \<in> set (optionsOf c s). fst kv \<notin> set (map fst opts) \<and> fst kv \<noteq> k} \<union> {(k, v)}"
      using knin knot unfolding o1 by (auto simp: image_iff)
    ultimately show ?thesis using kv by auto
  qed
qed


lemma forEach_rel:
  assumes step: "\<And>x s r s'. x \<in> set xs \<Longrightarrow> body x s = (r, s') \<Longrightarrow> R s s'"
    and refl: "\<And>s. R s s"
    and trans: "\<And>a b c. R a b \<Longrightarrow> R b c \<Longrightarrow> R a c"
  shows "forEach xs body s = (r, s') \<Longrightarrow> R s s'"
  using step
proof (induction xs arbitrary: s)
  case Nil
  then show ?case using refl by simp
next
  case (Cons x xs)
  obtain r1 s1 where b: "body x s = (r1, s1)" by (cases "body x s")
  have R1: "R s s1" using Cons.prems(2)[OF _ b] by simp
  show ?case
  proof (cases r1)
    case (Inl e)
    with Cons.prems(1) b have "s' = s1" by simp
    with R1 show ?thesis by simp
  next
    case (Inr u)
    with Cons.prems(1) b have "forEach xs body s1 = (r, s')" by simp
    have "R s1 s'"
    proof (rule Cons.IH[OF \<open>forEach xs body s1 = (r, s')\<close>])
      fix y t q t'
      assume "y \<in> set xs" "body y t = (q, t')"
      then show "R t t'" using Cons.prems(2)[of y t q t'] by simp
    qed
    with R1 show ?thesis using trans by blast
  qed
qed


lemma extends_refl: "extends s s" by (simp add: extends_def)
lemma extends_trans: "extends a b \<Longrightarrow> extends b c \<Longrightarrow> extends a c"
  by (auto simp: extends_def)

lemma request_extends:
  assumes "request c f s = (r, s')" and "\<And>t. trace (snd (f t)) = trace t"
  shows "extends s s'"
proof (cases "c \<in> set (faulty s)")
  case True
  with assms(1) show ?thesis by (auto simp: request_def Let_def extends_def)
next
  case False
  with assms(1) have "s' = snd (f (s\<lparr>trace := trace s @ [c]\<rparr>))"
    by (auto simp: request_def Let_def split: prod.splits)
  with assms(2)[of "s\<lparr>trace := trace s @ [c]\<rparr>"] show ?thesis
    by (simp add: extends_def)
qed

lemma map_of_eq_of_set_eq:
  assumes "set m = set opts" and "distinct (map fst opts)"
  shows "map_of m = map_of opts"
proof
  fix k
  show "map_of m k = map_of opts k"
  proof (cases "map_of m k")
    case None
    then have "k \<notin> fst ` set m" by (simp add: map_of_eq_None_iff)
    with assms(1) have "k \<notin> fst ` set opts" by simp
    then have "map_of opts k = None" by (simp add: map_of_eq_None_iff)
    with None show ?thesis by simp
  next
    case (Some v)
    then have "(k, v) \<in> set m" by (rule map_of_SomeD)
    with assms(1) have "(k, v) \<in> set opts" by simp
    with assms(2) have "map_of opts k = Some v" by simp
    with Some show ?thesis by simp
  qed
qed

lemma writeOptions_converges:
  assumes run: "writeOptions contentSlotId opts (optionsOf contentSlotId s) s = (Inr m, s')"
    and dist: "distinct (map fst opts)"
  shows "m = optionsOf contentSlotId s' \<and> set m = set opts \<and> map_of m = map_of opts \<and>
         (\<exists>calls. trace s' = trace s @ calls @ [GetOptionsForContentSlot contentSlotId])"
proof -
  let ?c = contentSlotId
  let ?existing = "optionsOf ?c s"
  let ?del = "(\<lambda>key. if key \<notin> set (map fst opts)
                then contentSlotOptionRepository_deleteOption ?c key else succeed ())"
  from run obtain s2 s3 where
    l1: "forEach (map fst ?existing) ?del s = (Inr (), s2)" and
    l2: "forEach opts (\<lambda>(key, val). if key \<in> set (map fst ?existing)
                then contentSlotOptionRepository_updateOption ?c key val
                else contentSlotOptionRepository_createOption ?c key val) s2 = (Inr (), s3)" and
    g2: "contentSlotOptionRepository_getOptionsForContentSlot ?c s3 = (Inr m, s')"
    unfolding writeOptions_def andThen_def
    by (auto split: prod.splits sum.splits)
  from getOptions_result[OF g2] have m: "m = optionsOf ?c s3"
    and s': "s' = s3\<lparr>trace := trace s3 @ [GetOptionsForContentSlot ?c]\<rparr>" by simp_all
  have o2: "optionsOf ?c s2 = filter (\<lambda>kv. fst kv \<in> set (map fst opts)) (optionsOf ?c s)"
    using optionsOf_after_delete[of ?c s "set (map fst opts)" s "()" s2] l1 by simp
  have "\<forall>k \<in> set (map fst opts). (k \<in> set (map fst ?existing)) = (k \<in> set (map fst (optionsOf ?c s2)))"
  proof
    fix k assume "k \<in> set (map fst opts)"
    then have "(k \<in> fst ` set (optionsOf ?c s)) = (k \<in> fst ` {kv \<in> set (optionsOf ?c s). fst kv \<in> set (map fst opts)})"
      by (force simp: image_iff)
    then show "(k \<in> set (map fst ?existing)) = (k \<in> set (map fst (optionsOf ?c s2)))"
      unfolding o2 by simp
  qed
  from forEach_put[OF l2 dist this]
  have "set (optionsOf ?c s3) = {kv \<in> set (optionsOf ?c s2). fst kv \<notin> set (map fst opts)} \<union> set opts" .
  then have set3: "set (optionsOf ?c s3) = set opts" unfolding o2 by auto
  have e12: "extends s s2"
    by (rule forEach_rel[OF _ extends_refl extends_trans l1])
       (auto simp: contentSlotOptionRepository_deleteOption_def succeed_def extends_refl
             split: if_splits elim!: request_extends)
  have e23: "extends s2 s3"
    by (rule forEach_rel[OF _ extends_refl extends_trans l2])
       (auto simp: contentSlotOptionRepository_updateOption_def contentSlotOptionRepository_createOption_def
             split: if_splits elim!: request_extends)
  from e12 e23 have "\<exists>calls. trace s3 = trace s @ calls"
    using extends_trans unfolding extends_def by blast
  then obtain calls where "trace s3 = trace s @ calls" ..
  then have tr: "trace s' = trace s @ calls @ [GetOptionsForContentSlot ?c]"
    using s' by simp
  have "optionsOf ?c s' = optionsOf ?c s3" using s' by (simp add: optionsOf_def)
  with m set3 tr map_of_eq_of_set_eq[OF _ dist, of m] show ?thesis by auto
qed

lemma setOptions_converges:
  assumes run: "setOptionsForContentSlot contentSlotId opts s = (Inr m, s')"
    and dist: "distinct (map fst opts)"
  shows "m = optionsOf contentSlotId s' \<and> set m = set opts \<and> map_of m = map_of opts \<and>
         (\<exists>calls. trace s' = trace s @ GetOptionsForContentSlot contentSlotId # calls @ [GetOptionsForContentSlot contentSlotId])"
proof -
  let ?c = contentSlotId
  from run obtain existing s1 where
    g1: "contentSlotOptionRepository_getOptionsForContentSlot ?c s = (Inr existing, s1)" and
    w: "writeOptions ?c opts existing s1 = (Inr m, s')"
    unfolding setOptionsForContentSlot_def andThen_def
    by (auto split: prod.splits sum.splits)
  from getOptions_result[OF g1] have ex: "existing = optionsOf ?c s"
    and s1: "s1 = s\<lparr>trace := trace s @ [GetOptionsForContentSlot ?c]\<rparr>" by simp_all
  from s1 have "optionsOf ?c s1 = optionsOf ?c s" by (simp add: optionsOf_def)
  with w ex have "writeOptions ?c opts (optionsOf ?c s1) s1 = (Inr m, s')" by simp
  from writeOptions_converges[OF this dist] obtain calls where
    c: "m = optionsOf ?c s'" "set m = set opts" "map_of m = map_of opts"
       "trace s' = trace s1 @ calls @ [GetOptionsForContentSlot ?c]" by blast
  from c(4) s1 have "trace s' = trace s @ GetOptionsForContentSlot ?c # calls @ [GetOptionsForContentSlot ?c]"
    by simp
  with c(1,2,3) show ?thesis by blast
qed

text \<open>
  C2. When \<^verbatim>\<open>setOptionsForContentSlot(slotId, desiredMap)\<close> succeeds, the options that storage
  holds for the slot are the desired map, key for key and value for value, and the value
  returned is the map read back from storage by a last read that follows every write. The
  desired map is a JavaScript object, so its keys are distinct.
\<close>

theorem setOptionsForContentSlot_persists_desired:
  assumes run: "setOptionsForContentSlot contentSlotId opts s = (Inr m, s')"
    and dist: "distinct (map fst opts)"
  shows "m = optionsOf contentSlotId s' \<and> set m = set opts \<and> map_of m = map_of opts \<and>
         (\<exists>calls. trace s' = trace s @ GetOptionsForContentSlot contentSlotId # calls @ [GetOptionsForContentSlot contentSlotId])"
  using run dist by (rule setOptions_converges)

theorem setOptionsForContentSlot_persists_desired_witness:
  "setOptionsForContentSlot 7 desiredB scenarioB =
     (Inr desiredB, snd (setOptionsForContentSlot 7 desiredB scenarioB)) \<and>
   distinct (map fst desiredB) \<and>
   desiredB = optionsOf 7 (snd (setOptionsForContentSlot 7 desiredB scenarioB)) \<and>
   map_of (optionsOf 7 (snd (setOptionsForContentSlot 7 desiredB scenarioB))) = map_of desiredB"
proof -
  have "fst (setOptionsForContentSlot 7 desiredB scenarioB) = Inr desiredB"
    by code_simp
  then have run: "setOptionsForContentSlot 7 desiredB scenarioB =
     (Inr desiredB, snd (setOptionsForContentSlot 7 desiredB scenarioB))"
    by (simp add: prod_eq_iff)
  have d: "distinct (map fst desiredB)"
    by (simp add: desiredB_def)
  from setOptionsForContentSlot_persists_desired[OF run d] run d show ?thesis
    by simp
qed

section \<open>Display commands\<close>


lemma getDisplayById_result:
  "getDisplayById i s = (r, s') \<Longrightarrow>
     s' = s\<lparr>trace := trace s @ [GetDisplayById i]\<rparr> \<and>
     r = (if GetDisplayById i \<in> set (faulty s) then Inl StorageFailure
          else Inr (find (\<lambda>d. display_id d = i) (displays s)))"
  by (auto simp: getDisplayById_def displayRepository_getDisplayById_def request_def Let_def
           split: if_splits)

lemma emit_result:
  "emit ev p s = (r, s') \<Longrightarrow>
     (if Throws \<in> set (listenersOf ev s)
      then r = Inl ListenerError \<and>
           s' = s\<lparr>trace := trace s @ [Emit ev],
                  delivered := delivered s @ map (\<lambda>l. (ev, p)) (reached (listenersOf ev s))\<rparr>
      else r = Inr (listenersOf ev s \<noteq> []) \<and>
           s' = s\<lparr>trace := trace s @ [Emit ev],
                  delivered := delivered s @ map (\<lambda>l. (ev, p)) (reached (listenersOf ev s)),
                  emitted := emitted s @ [(ev, p)]\<rparr>)"
  by (auto simp: emit_def Let_def split: if_splits)



lemma find_present: "P x \<Longrightarrow> x \<in> set xs \<Longrightarrow> \<exists>y. find P xs = Some y \<and> P y"
  by (cases "find P xs") (auto simp: find_None_iff find_Some_iff)

lemma createDisplay_repo_result:
  "displayRepository_createDisplay name active clientId description location s = (r, s1) \<Longrightarrow>
     emitted s1 = emitted s \<and> delivered s1 = delivered s \<and> listeners s1 = listeners s \<and>
     trace s1 = trace s @ [CreateDisplay] \<and>
     (\<forall>i. r = Inr i \<longrightarrow> i = nextDisplayId s \<and>
        (\<exists>rec. find (\<lambda>x. display_id x = nextDisplayId s) (displays s1) = Some rec))"
proof -
  let ?new = "\<lparr>display_id = nextDisplayId s, display_name = name, display_active = active,
               display_clientId = clientId, display_description = description,
               display_location = location\<rparr>"
  have "\<exists>y. find (\<lambda>x. display_id x = nextDisplayId s) (displays s @ [?new]) = Some y \<and>
      display_id y = nextDisplayId s"
    by (rule find_present[where x="?new"]) simp_all
  then show "displayRepository_createDisplay name active clientId description location s = (r, s1) \<Longrightarrow>
     emitted s1 = emitted s \<and> delivered s1 = delivered s \<and> listeners s1 = listeners s \<and>
     trace s1 = trace s @ [CreateDisplay] \<and>
     (\<forall>i. r = Inr i \<longrightarrow> i = nextDisplayId s \<and>
        (\<exists>rec. find (\<lambda>x. display_id x = nextDisplayId s) (displays s1) = Some rec))"
    by (auto simp: displayRepository_createDisplay_def request_def Let_def split: if_splits)
qed

lemma deleteDisplay_repo_result:
  "displayRepository_deleteDisplay displayId s = (r, s1) \<Longrightarrow>
     emitted s1 = emitted s \<and> delivered s1 = delivered s \<and> listeners s1 = listeners s \<and>
     trace s1 = trace s @ [DeleteDisplay displayId]"
  by (auto simp: displayRepository_deleteDisplay_def request_def Let_def split: if_splits)

lemma updateDisplay_repo_result:
  "displayRepository_updateDisplay displayId name active clientId description location s = (r, s1) \<Longrightarrow>
     emitted s1 = emitted s \<and> delivered s1 = delivered s \<and> listeners s1 = listeners s \<and>
     trace s1 = trace s @ [UpdateDisplay displayId] \<and>
     (\<forall>n. r = Inr (Some n) \<longrightarrow> n = displayId \<and>
        (\<exists>rec. find (\<lambda>x. display_id x = displayId) (displays s1) = Some rec))"
proof -
  let ?upd = "\<lambda>d. if display_id d = displayId
                   then d\<lparr>display_name := name, display_active := active,
                          display_clientId := clientId, display_description := description,
                          display_location := location\<rparr>
                   else d"
  have "\<exists>y. find (\<lambda>x. display_id x = displayId) (map ?upd (displays s)) = Some y \<and>
      display_id y = displayId" if "x \<in> set (displays s)" "display_id x = displayId" for x
    by (rule find_present[where x="?upd x"]) (use that in auto)
  then show "displayRepository_updateDisplay displayId name active clientId description location s = (r, s1) \<Longrightarrow>
     emitted s1 = emitted s \<and> delivered s1 = delivered s \<and> listeners s1 = listeners s \<and>
     trace s1 = trace s @ [UpdateDisplay displayId] \<and>
     (\<forall>n. r = Inr (Some n) \<longrightarrow> n = displayId \<and>
        (\<exists>rec. find (\<lambda>x. display_id x = displayId) (displays s1) = Some rec))"
    by (fastforce simp: displayRepository_updateDisplay_def request_def Let_def split: if_splits)
qed

text \<open>What a call of \<^verbatim>\<open>emit\<close> adds to the records, whether a listener throws or not.\<close>

lemma emit_adds:
  assumes "emit ev p s = (r, s')"
  shows "trace s' = trace s @ [Emit ev] \<and> displays s' = displays s \<and>
         list_all (\<lambda>x. x = (ev, p)) (drop (length (delivered s)) (delivered s')) \<and>
         (case r of Inr b \<Rightarrow> emitted s' = emitted s @ [(ev, p)] \<and> b = (listenersOf ev s \<noteq> [])
                  | Inl e \<Rightarrow> e = ListenerError \<and> emitted s' = emitted s)"
  using emit_result[OF assms] by (auto simp: list_all_iff split: if_splits)

lemma createDisplay_events:
  "(case createDisplay name active clientId description location s of
      (r, s') \<Rightarrow>
        length (filter (\<lambda>c. c = Emit DisplayCreated) (drop (length (trace s)) (trace s'))) \<le> 1 \<and>
        list_all (\<lambda>x. \<exists>rec. x = (DisplayCreated, DisplayPayload (Some rec)) \<and>
                     find (\<lambda>y. display_id y = nextDisplayId s) (displays s') = Some rec)
          (drop (length (delivered s)) (delivered s')) \<and>
        (case r of
           Inr d \<Rightarrow> emitted s' = emitted s @ [(DisplayCreated, DisplayPayload d)] \<and>
                    d = find (\<lambda>y. display_id y = nextDisplayId s) (displays s') \<and>
                    (\<exists>rec. d = Some rec)
         | Inl e \<Rightarrow> True))"
proof -
  obtain r1 s1 where c: "displayRepository_createDisplay name active clientId description location s = (r1, s1)"
    by (cases "displayRepository_createDisplay name active clientId description location s")
  note c1 = createDisplay_repo_result[OF c]
  show ?thesis
  proof (cases r1)
    case (Inl e)
    with c c1 show ?thesis by (simp add: createDisplay_def andThen_def)
  next
    case (Inr i)
    with c1 obtain rec where i: "i = nextDisplayId s"
      and rec: "find (\<lambda>x. display_id x = nextDisplayId s) (displays s1) = Some rec" by auto
    obtain r2 s2 where g: "getDisplayById i s1 = (r2, s2)" by (cases "getDisplayById i s1")
    note g1 = getDisplayById_result[OF g]
    show ?thesis
    proof (cases r2)
      case (Inl e)
      with c Inr g have "createDisplay name active clientId description location s = (Inl e, s2)"
        by (simp add: createDisplay_def andThen_def)
      with g1 c1 show ?thesis by simp
    next
      case d: (Inr d)
      with g1 i rec have dd: "d = Some rec" by (simp split: if_splits)
      obtain r3 s3 where e: "emit DisplayCreated (DisplayPayload d) s2 = (r3, s3)"
        by (cases "emit DisplayCreated (DisplayPayload d) s2")
      have u: "createDisplay name active clientId description location s =
            (case r3 of Inl x \<Rightarrow> (Inl x, s3) | Inr b \<Rightarrow> (Inr d, s3))"
        using c Inr g d e
        by (simp add: createDisplay_def andThen_def succeed_def split: sum.splits)
      from emit_adds[OF e] g1 c1 rec dd show ?thesis
        unfolding u by (cases r3) (auto simp: list_all_iff)
    qed
  qed
qed

lemma updateDisplay_events:
  "(case updateDisplay displayId name active clientId description location s of
      (r, s') \<Rightarrow>
        length (filter (\<lambda>c. c = Emit DisplayUpdated) (drop (length (trace s)) (trace s'))) \<le> 1 \<and>
        list_all (\<lambda>x. \<exists>rec. x = (DisplayUpdated, DisplayPayload (Some rec)) \<and>
                     find (\<lambda>y. display_id y = displayId) (displays s') = Some rec)
          (drop (length (delivered s)) (delivered s')) \<and>
        (case r of
           Inr d \<Rightarrow> (emitted s' = emitted s \<or>
                      emitted s' = emitted s @ [(DisplayUpdated, DisplayPayload d)] \<and>
                      (\<exists>rec. d = Some rec)) \<and>
                    d = find (\<lambda>y. display_id y = displayId) (displays s')
         | Inl e \<Rightarrow> True))"
proof -
  obtain r1 s1 where c: "displayRepository_updateDisplay displayId name active clientId description location s = (r1, s1)"
    by (cases "displayRepository_updateDisplay displayId name active clientId description location s")
  note c1 = updateDisplay_repo_result[OF c]
  show ?thesis
  proof (cases r1)
    case (Inl e)
    with c c1 show ?thesis by (simp add: updateDisplay_def andThen_def)
  next
    case (Inr i)
    show ?thesis
    proof (cases "falsy i")
      case True
      then have u: "updateDisplay displayId name active clientId description location s = getDisplayById displayId s1"
        using c Inr by (simp add: updateDisplay_def andThen_def)
      obtain r s' where g: "getDisplayById displayId s1 = (r, s')" by (cases "getDisplayById displayId s1")
      from getDisplayById_result[OF g] u g c1 show ?thesis
        by (auto split: if_splits)
    next
      case False
      then obtain n where n0: "i = Some n" "n \<noteq> 0" by (auto simp: falsy_def split: option.splits)
      with c1 Inr obtain rec where n: "n = displayId"
        and rec: "find (\<lambda>x. display_id x = displayId) (displays s1) = Some rec" by auto
      obtain r2 s2 where g: "getDisplayById n s1 = (r2, s2)" by (cases "getDisplayById n s1")
      note g1 = getDisplayById_result[OF g]
      show ?thesis
      proof (cases r2)
        case (Inl e)
        with False c Inr g n0 have "updateDisplay displayId name active clientId description location s = (Inl e, s2)"
          by (simp add: updateDisplay_def andThen_def)
        with g1 c1 show ?thesis by simp
      next
        case d: (Inr d)
        with g1 n rec have dd: "d = Some rec" by (simp split: if_splits)
        obtain r3 s3 where e: "emit DisplayUpdated (DisplayPayload d) s2 = (r3, s3)"
          by (cases "emit DisplayUpdated (DisplayPayload d) s2")
        have u: "updateDisplay displayId name active clientId description location s =
              (case r3 of Inl x \<Rightarrow> (Inl x, s3) | Inr b \<Rightarrow> (Inr d, s3))"
          using False c Inr g n0 d e
          by (simp add: updateDisplay_def andThen_def succeed_def split: sum.splits)
        from emit_adds[OF e] g1 c1 rec dd n show ?thesis
          unfolding u by (cases r3) (auto simp: list_all_iff)
      qed
    qed
  qed
qed

lemma deleteDisplay_events:
  "(case deleteDisplay displayId s of
      (r, s') \<Rightarrow>
        length (filter (\<lambda>c. c = Emit DisplayDeleted) (drop (length (trace s)) (trace s'))) \<le> 1 \<and>
        list_all (\<lambda>x. x = (DisplayDeleted, DeleteResult True))
          (drop (length (delivered s)) (delivered s')) \<and>
        (case r of
           Inr b \<Rightarrow> emitted s' = emitted s @ (if b then [(DisplayDeleted, DeleteResult True)] else [])
         | Inl e \<Rightarrow> True))"
proof -
  obtain r1 s1 where c: "displayRepository_deleteDisplay displayId s = (r1, s1)"
    by (cases "displayRepository_deleteDisplay displayId s")
  note c1 = deleteDisplay_repo_result[OF c]
  show ?thesis
  proof (cases r1)
    case (Inl e)
    with c c1 show ?thesis by (simp add: deleteDisplay_def andThen_def)
  next
    case (Inr b)
    show ?thesis
    proof (cases b)
      case False
      with c c1 Inr show ?thesis by (simp add: deleteDisplay_def andThen_def succeed_def)
    next
      case True
      obtain r3 s3 where e: "emit DisplayDeleted (DeleteResult True) s1 = (r3, s3)"
        by (cases "emit DisplayDeleted (DeleteResult True) s1")
      have u: "deleteDisplay displayId s =
            (case r3 of Inl x \<Rightarrow> (Inl x, s3) | Inr x \<Rightarrow> (Inr True, s3))"
        using c Inr True e
        by (simp add: deleteDisplay_def andThen_def succeed_def split: sum.splits)
      from emit_adds[OF e] c1 show ?thesis
        unfolding u by (cases r3) (auto simp: list_all_iff)
    qed
  qed
qed

text \<open>
  C8, as the code has it. Each of the three commands calls \<^verbatim>\<open>emit\<close> at most once, whatever
  its outcome. \<^verbatim>\<open>display_created\<close> and \<^verbatim>\<open>display_updated\<close> carry the display read back
  from storage after the write, a record and never \<^verbatim>\<open>null\<close>: this is what every listener
  that is called receives, and what the command returns when it succeeds.
  \<^verbatim>\<open>display_deleted\<close> carries the result of the repository's delete, not a display.
\<close>

theorem display_events_carry:
  "(case createDisplay name active clientId description location s of
      (r, s') \<Rightarrow>
        length (filter (\<lambda>c. c = Emit DisplayCreated) (drop (length (trace s)) (trace s'))) \<le> 1 \<and>
        list_all (\<lambda>x. \<exists>rec. x = (DisplayCreated, DisplayPayload (Some rec)) \<and>
                     find (\<lambda>y. display_id y = nextDisplayId s) (displays s') = Some rec)
          (drop (length (delivered s)) (delivered s')) \<and>
        (case r of
           Inr d \<Rightarrow> emitted s' = emitted s @ [(DisplayCreated, DisplayPayload d)] \<and>
                    d = find (\<lambda>y. display_id y = nextDisplayId s) (displays s') \<and>
                    (\<exists>rec. d = Some rec)
         | Inl e \<Rightarrow> True)) \<and>
   (case updateDisplay displayId name active clientId description location s of
      (r, s') \<Rightarrow>
        length (filter (\<lambda>c. c = Emit DisplayUpdated) (drop (length (trace s)) (trace s'))) \<le> 1 \<and>
        list_all (\<lambda>x. \<exists>rec. x = (DisplayUpdated, DisplayPayload (Some rec)) \<and>
                     find (\<lambda>y. display_id y = displayId) (displays s') = Some rec)
          (drop (length (delivered s)) (delivered s')) \<and>
        (case r of
           Inr d \<Rightarrow> (emitted s' = emitted s \<or>
                      emitted s' = emitted s @ [(DisplayUpdated, DisplayPayload d)] \<and>
                      (\<exists>rec. d = Some rec)) \<and>
                    d = find (\<lambda>y. display_id y = displayId) (displays s')
         | Inl e \<Rightarrow> True)) \<and>
   (case deleteDisplay displayId s of
      (r, s') \<Rightarrow>
        length (filter (\<lambda>c. c = Emit DisplayDeleted) (drop (length (trace s)) (trace s'))) \<le> 1 \<and>
        list_all (\<lambda>x. x = (DisplayDeleted, DeleteResult True))
          (drop (length (delivered s)) (delivered s')) \<and>
        (case r of
           Inr b \<Rightarrow> emitted s' = emitted s @ (if b then [(DisplayDeleted, DeleteResult True)] else [])
         | Inl e \<Rightarrow> True))"
  by (intro conjI createDisplay_events updateDisplay_events deleteDisplay_events)

text \<open>
  C8 as stated fails for \<^verbatim>\<open>display_deleted\<close>: deleting the display of \<open>oneDisplay\<close> emits
  the event with the repository's boolean, and no display is left to carry. The listener
  registered here receives that boolean.
\<close>

theorem display_deleted_carries_no_record:
  "fst (deleteDisplay 1 oneDisplay) = Inr True \<and>
   emitted (snd (deleteDisplay 1 oneDisplay)) = emitted oneDisplay @ [(DisplayDeleted, DeleteResult True)] \<and>
   displays (snd (deleteDisplay 1 oneDisplay)) = [] \<and>
   delivered (snd (deleteDisplay 1 (oneDisplay\<lparr>listeners := [(DisplayDeleted, Receives)]\<rparr>))) =
     [(DisplayDeleted, DeleteResult True)]"
  by code_simp

section \<open>Views\<close>

text \<open>
  What \<^verbatim>\<open>createView\<close> does in every state: it reads the group, and the view it adds gets
  the size of the group plus one as position; the views already stored stay as they are.
\<close>

lemma createView_position:
  assumes "createView name columns rows displayId screenType s = (Inr v, s')"
  shows "view_order v =
           length (filter (\<lambda>x. view_displayId x = displayId \<and> view_screenType x = screenType) (views s)) + 1 \<and>
         views s' = views s @ [v] \<and>
         drop (length (trace s)) (trace s') = [GetViewsByDisplayIdAndScreenType displayId screenType, CreateView]"
  using assms
  by (auto simp: createView_def andThen_def viewRepository_getViewsByDisplayIdAndScreenType_def
        viewRepository_createView_def request_def Let_def split: if_splits)

text \<open>
  C9 fails on the code after a deletion. The group of \<open>lastViewLeft\<close> holds one view, at
  position 3; \<^verbatim>\<open>createView\<close> counts one view and gives the new view position 2, in front
  of the view that was there, not at the end of the group.
\<close>

theorem createView_not_last_after_delete:
  "map (\<lambda>v. (view_name v, view_order v)) (views lastViewLeft) = [(''c'', 3)] \<and>
   map (\<lambda>v. (view_name v, view_order v))
     (views (snd (createView ''d'' 2 2 1 ''idle'' lastViewLeft))) = [(''c'', 3), (''d'', 2)]"
  by code_simp

section \<open>Steps, loops and what they leave alone\<close>

lemma andThen_cases:
  assumes "andThen m f s = (r, s')"
  obtains (failed) e where "m s = (Inl e, s')" "r = Inl e"
        | (went_on) x s1 where "m s = (Inr x, s1)" "f x s1 = (r, s')"
  using assms by (auto simp: andThen_def split: prod.splits sum.splits)

lemma andThen_rel:
  assumes run: "andThen m f s = (r, s')"
    and first: "\<And>r1 s1. m s = (r1, s1) \<Longrightarrow> R s s1"
    and second: "\<And>x s1. m s = (Inr x, s1) \<Longrightarrow> f x s1 = (r, s') \<Longrightarrow> R s1 s'"
    and trans: "\<And>a b c. R a b \<Longrightarrow> R b c \<Longrightarrow> R a c"
  shows "R s s'"
  using run
proof (cases rule: andThen_cases)
  case (failed e)
  then show ?thesis using first by blast
next
  case (went_on x s1)
  then show ?thesis using first second trans by blast
qed

lemma request_cases:
  assumes "request c f s = (r, s')"
  obtains (rejected) "c \<in> set (faulty s)" "r = Inl StorageFailure" "s' = s\<lparr>trace := trace s @ [c]\<rparr>"
        | (served) "c \<notin> set (faulty s)" "r = Inr (fst (f (s\<lparr>trace := trace s @ [c]\<rparr>)))"
                   "s' = snd (f (s\<lparr>trace := trace s @ [c]\<rparr>))"
  using assms by (auto simp: request_def Let_def split: if_splits prod.splits)

lemma extendsBy_refl: "extendsBy P s s"
  by (simp add: extendsBy_def)

lemma extendsBy_trans: "extendsBy P a b \<Longrightarrow> extendsBy P b c \<Longrightarrow> extendsBy P a c"
  by (auto simp: extendsBy_def)

lemma extendsBy_mono: "extendsBy P s s' \<Longrightarrow> (\<And>c. P c \<Longrightarrow> Q c) \<Longrightarrow> extendsBy Q s s'"
  by (auto simp: extendsBy_def list_all_iff)

lemma request_extendsBy:
  assumes "request c f s = (r, s')" and "P c" and "\<And>t. trace (snd (f t)) = trace t"
  shows "extendsBy P s s'"
  using assms(1)
proof (cases rule: request_cases)
  case rejected
  with assms(2) show ?thesis by (simp add: extendsBy_def)
next
  case served
  with assms(2) assms(3)[of "s\<lparr>trace := trace s @ [c]\<rparr>"] show ?thesis
    by (simp add: extendsBy_def)
qed

lemma orNotFound_extendsBy:
  assumes "orNotFound m s = (r, s')" and "\<And>r1 s1. m s = (r1, s1) \<Longrightarrow> extendsBy P s s1"
  shows "extendsBy P s s'"
  using assms
  by (auto simp: orNotFound_def andThen_def succeed_def split: prod.splits sum.splits option.splits)

lemma readsOnly_refl: "readsOnly s s"
  by (auto simp: readsOnly_def intro: exI[of _ "[]"])

lemma readsOnly_trans: "readsOnly a b \<Longrightarrow> readsOnly b c \<Longrightarrow> readsOnly a c"
  by (auto simp: readsOnly_def)

lemma request_readsOnly:
  assumes "request c f s = (r, s')" and "\<And>t. snd (f t) = t"
  shows "readsOnly s s'"
  using assms(1)
proof (cases rule: request_cases)
  case rejected
  then show ?thesis by (auto simp: readsOnly_def)
next
  case served
  with assms(2)[of "s\<lparr>trace := trace s @ [c]\<rparr>"] show ?thesis
    by (auto simp: readsOnly_def)
qed

lemma orNotFound_readsOnly:
  assumes "orNotFound m s = (r, s')" and "\<And>r1 s1. m s = (r1, s1) \<Longrightarrow> readsOnly s s1"
  shows "readsOnly s s'"
  using assms
  by (auto simp: orNotFound_def andThen_def succeed_def split: prod.splits sum.splits option.splits)

subsection \<open>Reading a view\<close>

lemma getOptions_readsOnly:
  "contentSlotOptionRepository_getOptionsForContentSlot c s = (r, s') \<Longrightarrow> readsOnly s s'"
  unfolding contentSlotOptionRepository_getOptionsForContentSlot_def
  by (erule request_readsOnly) simp

lemma getOptions_extendsBy:
  "contentSlotOptionRepository_getOptionsForContentSlot c s = (r, s') \<Longrightarrow>
     P (GetOptionsForContentSlot c) \<Longrightarrow> extendsBy P s s'"
  unfolding contentSlotOptionRepository_getOptionsForContentSlot_def
  by (erule request_extendsBy) simp_all

lemma enrich_readsOnly: "enrich cs s = (r, s') \<Longrightarrow> readsOnly s s'"
proof (induction cs arbitrary: s r s')
  case Nil
  then show ?case by (simp add: readsOnly_refl)
next
  case (Cons c cs)
  obtain r1 s1 where g: "contentSlotOptionRepository_getOptionsForContentSlot (slot_id c) s = (r1, s1)"
    by (cases "contentSlotOptionRepository_getOptionsForContentSlot (slot_id c) s")
  note r1 = getOptions_readsOnly[OF g]
  show ?case
  proof (cases r1)
    case (Inl e)
    with Cons.prems g r1 show ?thesis by simp
  next
    case (Inr m)
    obtain r2 s2 where e: "enrich cs s1 = (r2, s2)" by (cases "enrich cs s1")
    from Cons.prems g Inr e have "s' = s2" by (auto split: sum.splits)
    with Cons.IH[OF e] r1 show ?thesis using readsOnly_trans by blast
  qed
qed

lemma enrich_extendsBy:
  assumes "\<And>i. P (GetOptionsForContentSlot i)"
  shows "enrich cs s = (r, s') \<Longrightarrow> extendsBy P s s'"
proof (induction cs arbitrary: s r s')
  case Nil
  then show ?case by (simp add: extendsBy_refl)
next
  case (Cons c cs)
  obtain r1 s1 where g: "contentSlotOptionRepository_getOptionsForContentSlot (slot_id c) s = (r1, s1)"
    by (cases "contentSlotOptionRepository_getOptionsForContentSlot (slot_id c) s")
  note r1 = getOptions_extendsBy[where P=P, OF g assms]
  show ?case
  proof (cases r1)
    case (Inl e)
    with Cons.prems g r1 show ?thesis by simp
  next
    case (Inr m)
    obtain r2 s2 where e: "enrich cs s1 = (r2, s2)" by (cases "enrich cs s1")
    from Cons.prems g Inr e have "s' = s2" by (auto split: sum.splits)
    with Cons.IH[OF e] r1 show ?thesis using extendsBy_trans by blast
  qed
qed

lemma getContentSlotsByViewId_readsOnly:
  "contentSlotRepository_getContentSlotsByViewId v s = (r, s') \<Longrightarrow> readsOnly s s'"
  unfolding contentSlotRepository_getContentSlotsByViewId_def
  by (erule request_readsOnly) simp

lemma getContentSlotsByViewId_extendsBy:
  "contentSlotRepository_getContentSlotsByViewId v s = (r, s') \<Longrightarrow>
     P (GetContentSlotsByViewId v) \<Longrightarrow> extendsBy P s s'"
  unfolding contentSlotRepository_getContentSlotsByViewId_def
  by (erule request_extendsBy) simp_all

lemma getContentSlotsForView_readsOnly:
  "getContentSlotsForView v s = (r, s') \<Longrightarrow> readsOnly s s'"
  unfolding getContentSlotsForView_def
  by (erule andThen_rel) (auto intro: getContentSlotsByViewId_readsOnly enrich_readsOnly readsOnly_trans)

lemma getContentSlotsForView_extendsBy:
  assumes "P (GetContentSlotsByViewId v)" and "\<And>i. P (GetOptionsForContentSlot i)"
  shows "getContentSlotsForView v s = (r, s') \<Longrightarrow> extendsBy P s s'"
  unfolding getContentSlotsForView_def
  by (erule andThen_rel)
     (auto intro: getContentSlotsByViewId_extendsBy enrich_extendsBy extendsBy_trans assms)

lemma getViewById_readsOnly:
  "viewRepository_getViewById v s = (r, s') \<Longrightarrow> readsOnly s s'"
  unfolding viewRepository_getViewById_def
  by (erule orNotFound_readsOnly) (erule request_readsOnly, simp)

lemma getViewById_extendsBy:
  "viewRepository_getViewById v s = (r, s') \<Longrightarrow> P (GetViewById v) \<Longrightarrow> extendsBy P s s'"
  unfolding viewRepository_getViewById_def
  by (erule orNotFound_extendsBy) (erule request_extendsBy, simp_all)

lemma getView_readsOnly: "getView v s = (r, s') \<Longrightarrow> readsOnly s s'"
proof -
  assume run: "getView v s = (r, s')"
  obtain r1 s1 where a: "viewRepository_getViewById v s = (r1, s1)"
    by (cases "viewRepository_getViewById v s")
  obtain r2 s2 where b: "getContentSlotsForView v s1 = (r2, s2)"
    by (cases "getContentSlotsForView v s1")
  from run a b have "s' = s2" by (auto simp: getView_def split: sum.splits)
  with getViewById_readsOnly[OF a] getContentSlotsForView_readsOnly[OF b] show ?thesis
    using readsOnly_trans by blast
qed

lemma getView_extendsBy:
  assumes "P (GetViewById v)" "P (GetContentSlotsByViewId v)" and "\<And>i. P (GetOptionsForContentSlot i)"
  shows "getView v s = (r, s') \<Longrightarrow> extendsBy P s s'"
proof -
  assume run: "getView v s = (r, s')"
  obtain r1 s1 where a: "viewRepository_getViewById v s = (r1, s1)"
    by (cases "viewRepository_getViewById v s")
  obtain r2 s2 where b: "getContentSlotsForView v s1 = (r2, s2)"
    by (cases "getContentSlotsForView v s1")
  from run a b have "s' = s2" by (auto simp: getView_def split: sum.splits)
  with getViewById_extendsBy[where P=P, OF a assms(1)] getContentSlotsForView_extendsBy[where P=P, OF assms(2,3) b] show ?thesis
    using extendsBy_trans by blast
qed

subsection \<open>The two loops of the content slot reconciler\<close>

lemmas slot_repo_defs =
  contentSlotRepository_getContentSlotsByViewId_def contentSlotRepository_getContentSlot_def
  contentSlotRepository_createContentSlot_def contentSlotRepository_updateContentSlot_def
  contentSlotRepository_deleteContentSlot_def

lemmas start_defs =
  startSetOptionsForContentSlot_def detach_def contentSlotOptionRepository_getOptionsForContentSlot_def

lemma startSetOptions_result:
  "startSetOptionsForContentSlot i opts s = (r, s') \<Longrightarrow>
     r = Inr () \<and>
     s' = s\<lparr>trace := trace s @ [GetOptionsForContentSlot i],
            pending := pending s @
              [SetOptionsTask i opts (fst (contentSlotOptionRepository_getOptionsForContentSlot i s))]\<rparr>"
  by (auto simp: start_defs request_def Let_def split: if_splits)

lemma removeContentSlot_keeps:
  "removeContentSlot i s = (r, s') \<Longrightarrow>
     displays s' = displays s \<and> views s' = views s \<and> faulty s' = faulty s \<and>
     emitted s' = emitted s \<and> logged s' = logged s \<and> pending s' = pending s"
  by (auto simp: removeContentSlot_def andThen_def succeed_def request_def Let_def
        contentSlotOptionRepository_deleteOptionsForContentSlot_def
        contentSlotRepository_deleteContentSlot_def split: if_splits)

lemma placeContentSlot_keeps:
  "placeContentSlot v d s = (r, s') \<Longrightarrow>
     displays s' = displays s \<and> views s' = views s \<and> faulty s' = faulty s \<and>
     emitted s' = emitted s \<and> logged s' = logged s \<and>
     contentSlotOptions s' = contentSlotOptions s"
  by (auto simp: placeContentSlot_def andThen_def succeed_def start_defs orNotFound_def
        request_def Let_def slot_repo_defs split: option.splits if_splits)

lemma removeContentSlot_extendsBy:
  assumes "P (DeleteOptionsForContentSlot i)" "P (DeleteContentSlot i)"
  shows "removeContentSlot i s = (r, s') \<Longrightarrow> extendsBy P s s'"
  using assms
  by (auto simp: removeContentSlot_def andThen_def succeed_def request_def Let_def extendsBy_def
        contentSlotOptionRepository_deleteOptionsForContentSlot_def
        contentSlotRepository_deleteContentSlot_def split: if_splits)

lemma placeContentSlot_extendsBy:
  assumes "P CreateContentSlot" "\<And>i. P (GetContentSlot i)" "\<And>i. P (UpdateContentSlot i)"
    "\<And>i. P (GetOptionsForContentSlot i)"
  shows "placeContentSlot v d s = (r, s') \<Longrightarrow> extendsBy P s s'"
  using assms
  by (auto simp: placeContentSlot_def andThen_def succeed_def start_defs orNotFound_def
        request_def Let_def slot_repo_defs extendsBy_def split: option.splits if_splits)

lemma updateContentSlotsForView_keeps:
  assumes "updateContentSlotsForView v ds s = (r, s')"
  shows "displays s' = displays s \<and> views s' = views s \<and> faulty s' = faulty s \<and>
         emitted s' = emitted s \<and> logged s' = logged s"
proof -
  let ?R = "\<lambda>s s'. displays s' = displays s \<and> views s' = views s \<and> faulty s' = faulty s \<and>
         emitted s' = emitted s \<and> logged s' = logged s"
  have get: "\<And>r1 s1. contentSlotRepository_getContentSlotsByViewId v s = (r1, s1) \<Longrightarrow> ?R s s1"
    by (auto simp: contentSlotRepository_getContentSlotsByViewId_def request_def Let_def split: if_splits)
  have rem: "\<And>xs t q t'. forEach xs removeContentSlot t = (q, t') \<Longrightarrow> ?R t t'"
    by (erule forEach_rel[rotated 3]) (auto dest: removeContentSlot_keeps)
  have put: "\<And>t q t'. forEach ds (placeContentSlot v) t = (q, t') \<Longrightarrow> ?R t t'"
    by (erule forEach_rel[rotated 3]) (auto dest: placeContentSlot_keeps)
  from assms show ?thesis
    unfolding updateContentSlotsForView_def
    apply (elim andThen_cases)
      apply (auto dest!: get rem put)
    done
qed

lemma updateContentSlotsForView_extendsBy:
  assumes "P (GetContentSlotsByViewId v)" "\<And>i. P (DeleteOptionsForContentSlot i)" "\<And>i. P (DeleteContentSlot i)"
     "P CreateContentSlot" "\<And>i. P (GetContentSlot i)" "\<And>i. P (UpdateContentSlot i)"
     "\<And>i. P (GetOptionsForContentSlot i)"
    and run: "updateContentSlotsForView v ds s = (r, s')"
  shows "extendsBy P s s'"
proof -
  have get: "\<And>r1 s1. contentSlotRepository_getContentSlotsByViewId v s = (r1, s1) \<Longrightarrow> extendsBy P s s1"
    using assms(1) by (rule getContentSlotsByViewId_extendsBy[rotated])
  have rem: "\<And>xs t q t'. forEach xs removeContentSlot t = (q, t') \<Longrightarrow> extendsBy P t t'"
    by (erule forEach_rel[rotated 3])
       (auto intro: removeContentSlot_extendsBy[where P=P] assms extendsBy_refl extendsBy_trans)
  have put: "\<And>t q t'. forEach ds (placeContentSlot v) t = (q, t') \<Longrightarrow> extendsBy P t t'"
    by (erule forEach_rel[rotated 3])
       (auto intro: placeContentSlot_extendsBy[where P=P] assms extendsBy_refl extendsBy_trans)
  from run show ?thesis
    unfolding updateContentSlotsForView_def
    by (elim andThen_cases) (blast intro: get rem put extendsBy_trans)+
qed

section \<open>updateView and deleteView\<close>

lemma getViewById_found:
  assumes "viewRepository_getViewById i s = (Inr v, s1)"
  shows "find (\<lambda>x. view_id x = i) (views s) = Some v \<and> view_id v = i \<and>
         s1 = s\<lparr>trace := trace s @ [GetViewById i]\<rparr>"
proof -
  from assms have "find (\<lambda>x. view_id x = i) (views s) = Some v \<and>
         s1 = s\<lparr>trace := trace s @ [GetViewById i]\<rparr>"
    by (auto simp: viewRepository_getViewById_def orNotFound_def andThen_def succeed_def
          request_def Let_def split: if_splits option.splits)
  moreover from this have "view_id v = i"
    by (auto simp: find_Some_iff)
  ultimately show ?thesis by simp
qed

lemma find_map_update:
  assumes "\<And>x. view_id (g x) = view_id x"
  shows "find (\<lambda>x. view_id x = i) (map (\<lambda>x. if view_id x = i then g x else x) xs) =
         map_option g (find (\<lambda>x. view_id x = i) xs)"
  using assms by (induction xs) auto

lemma viewRepository_updateView_result:
  assumes "viewRepository_updateView i name columns rows displayId order screenType s = (Inr u, s')"
  shows "views s' = map (\<lambda>v. if view_id v = i
                   then v\<lparr>view_name := name, view_columns := columns, view_rows := rows,
                          view_displayId := displayId, view_order := order,
                          view_screenType := screenType\<rparr>
                   else v) (views s) \<and>
         find (\<lambda>x. view_id x = i) (views s') = Some u \<and> view_id u = i \<and>
         trace s' = trace s @ [UpdateView i]"
proof -
  from assms have a: "views s' = map (\<lambda>v. if view_id v = i
                   then v\<lparr>view_name := name, view_columns := columns, view_rows := rows,
                          view_displayId := displayId, view_order := order,
                          view_screenType := screenType\<rparr>
                   else v) (views s) \<and> find (\<lambda>x. view_id x = i) (views s') = Some u \<and>
         trace s' = trace s @ [UpdateView i]"
    by (auto simp: viewRepository_updateView_def orNotFound_def andThen_def succeed_def
          request_def Let_def split: if_splits option.splits)
  moreover from a have "view_id u = i" by (auto simp: find_Some_iff)
  ultimately show ?thesis by blast
qed

lemma updateView_steps:
  assumes "updateView viewId name columns rows ds s = (Inr v, s')"
  obtains v0 s1 u s2 s3 s4 answer s5 where
    "viewRepository_getViewById viewId s = (Inr v0, s1)"
    "viewRepository_updateView (view_id v0) name columns rows
        (view_displayId v0) (view_order v0) (view_screenType v0) s1 = (Inr u, s2)"
    "updateContentSlotsForView (view_id u) ds s2 = (Inr (), s3)"
    "getView viewId s3 = (Inr v, s4)"
    "getDisplayById (view_displayId (fst v)) s4 = (answer, s5)"
    "s' = s5\<lparr>pending := pending s5 @ [NotifyViewsUpdated answer]\<rparr>"
  using assms unfolding updateView_def
  by (elim andThen_cases) (auto simp: detach_def succeed_def split: prod.splits)

text \<open>
  The notification that \<^verbatim>\<open>updateView\<close> leaves pending: a failed lookup of the display and a
  listener that throws are logged, and nothing else comes of them.
\<close>

lemma runTask_notify:
  "runTask (NotifyViewsUpdated answer) t =
     (case answer of
        Inl e \<Rightarrow> t\<lparr>logged := logged t @ [e]\<rparr>
      | Inr d \<Rightarrow>
          (if Throws \<in> set (listenersOf ViewsUpdated t)
           then t\<lparr>trace := trace t @ [Emit ViewsUpdated],
                  delivered := delivered t @
                    map (\<lambda>l. (ViewsUpdated, DisplayPayload d)) (reached (listenersOf ViewsUpdated t)),
                  logged := logged t @ [ListenerError]\<rparr>
           else t\<lparr>trace := trace t @ [Emit ViewsUpdated],
                  delivered := delivered t @
                    map (\<lambda>l. (ViewsUpdated, DisplayPayload d)) (reached (listenersOf ViewsUpdated t)),
                  emitted := emitted t @ [(ViewsUpdated, DisplayPayload d)]\<rparr>))"
  by (simp add: catchAndLog_def andThen_def settled_def emit_def Let_def split: sum.splits)

lemma readsOnly_fields:
  "readsOnly s s' \<Longrightarrow> faulty s' = faulty s \<and> views s' = views s \<and> logged s' = logged s \<and>
     emitted s' = emitted s \<and> displays s' = displays s \<and> contentSlots s' = contentSlots s \<and>
     contentSlotOptions s' = contentSlotOptions s \<and> pending s' = pending s"
  by (auto simp: readsOnly_def)

text \<open>
  In every state, when the lookup of the display fails in \<^verbatim>\<open>deleteView\<close>, the operation
  fails with that error, and no view has been deleted.
\<close>

lemma deleteView_lookup_failure:
  assumes v: "getView w q = (Inr x, q1)"
    and d: "getDisplayById (view_displayId (fst x)) q1 = (Inl e, q2)"
  shows "deleteView w q = (Inl e, q2) \<and> views q2 = views q \<and> logged q2 = logged q"
proof -
  from getView_readsOnly[OF v] have "views q1 = views q" "logged q1 = logged q"
    by (simp_all add: readsOnly_fields)
  moreover from getDisplayById_result[OF d] have "views q2 = views q1" "logged q2 = logged q1" by simp_all
  ultimately show ?thesis
    using v d by (simp add: deleteView_def andThen_def)
qed

lemma deleteView_listener_failure_is_logged:
  "fst (deleteView 1 listenerThrows) = Inr None \<and>
   views (snd (deleteView 1 listenerThrows)) = [] \<and>
   logged (snd (deleteView 1 listenerThrows)) = [ListenerError] \<and>
   map fst (delivered (snd (deleteView 1 listenerThrows))) = [ViewsUpdated]"
  by code_simp

text \<open>
  C7 is not what the code does in \<^verbatim>\<open>deleteView\<close>. It resolves the display of the view
  before it deletes the view, not afterwards, and outside the handler that logs: when the
  lookup of the display fails, the operation fails with that error, the view is still
  stored, no deletion has been asked of the repository and nothing is logged. The handler
  that was meant for the notification catches the deletion instead: when storage rejects
  the deletion, the error is logged and the operation is reported as done although the
  view is still stored. \<^verbatim>\<open>updateView\<close> does what C7 says: with the same failing lookup it
  returns the updated view, and the failure is logged when the pending notification runs.
\<close>

theorem deleteView_lookup_failure_reaches_caller:
  "drop (length (trace oneView)) (trace (snd (deleteView 1 oneView))) =
     [GetViewById 1, GetContentSlotsByViewId 1, GetDisplayById 1, DeleteView 1, Emit ViewsUpdated] \<and>
   fst (deleteView 1 lookupFails) = Inl StorageFailure \<and>
   map view_id (views (snd (deleteView 1 lookupFails))) = [1] \<and>
   DeleteView 1 \<notin> set (trace (snd (deleteView 1 lookupFails))) \<and>
   logged (snd (deleteView 1 lookupFails)) = [] \<and>
   fst (deleteView 1 deletionFails) = Inr None \<and>
   map view_id (views (snd (deleteView 1 deletionFails))) = [1] \<and>
   logged (snd (deleteView 1 deletionFails)) = [StorageFailure] \<and>
   fst (updateView 1 ''n'' 3 3 [] lookupFails) =
     Inr (\<lparr>view_id = 1, view_name = ''n'', view_columns = 3, view_rows = 3, view_displayId = 1,
           view_order = 1, view_screenType = ''idle''\<rparr>, []) \<and>
   logged (settle (snd (updateView 1 ''n'' 3 3 [] lookupFails))) = [StorageFailure]"
  by code_simp

section \<open>What a view update leaves alone\<close>

lemma getView_found:
  assumes "getView i s = (Inr v, s')"
  shows "find (\<lambda>x. view_id x = i) (views s) = Some (fst v)"
proof -
  obtain r1 s1 where a: "viewRepository_getViewById i s = (r1, s1)"
    by (cases "viewRepository_getViewById i s")
  with assms have "r1 = Inr (fst v)"
    by (auto simp: getView_def split: prod.splits sum.splits)
  with a getViewById_found show ?thesis by blast
qed

lemma updateView_keeps_placement:
  assumes "updateView viewId name columns rows ds s = (Inr v, s')"
  shows "\<exists>v0. find (\<lambda>x. view_id x = viewId) (views s) = Some v0 \<and>
           find (\<lambda>x. view_id x = viewId) (views s') =
             Some (v0\<lparr>view_name := name, view_columns := columns, view_rows := rows\<rparr>) \<and>
           fst v = v0\<lparr>view_name := name, view_columns := columns, view_rows := rows\<rparr>"
  using assms
proof (cases rule: updateView_steps)
  case (1 v0 s1 u s2 s3 s4 answer s5)
  let ?g = "\<lambda>x. x\<lparr>view_name := name, view_columns := columns, view_rows := rows,
                    view_displayId := view_displayId v0, view_order := view_order v0,
                    view_screenType := view_screenType v0\<rparr>"
  from getViewById_found[OF 1(1)]
  have v0: "find (\<lambda>x. view_id x = viewId) (views s) = Some v0" "view_id v0 = viewId"
    and s1: "views s1 = views s" by simp_all
  from viewRepository_updateView_result[OF 1(2)] v0 s1
  have s2: "views s2 = map (\<lambda>x. if view_id x = viewId then ?g x else x) (views s)"
    and u: "view_id u = viewId" by simp_all
  have "find (\<lambda>x. view_id x = viewId) (views s2) = map_option ?g (find (\<lambda>x. view_id x = viewId) (views s))"
    unfolding s2 by (rule find_map_update) simp
  with v0 have f2: "find (\<lambda>x. view_id x = viewId) (views s2) = Some (?g v0)" by simp
  have g0: "?g v0 = v0\<lparr>view_name := name, view_columns := columns, view_rows := rows\<rparr>"
    by simp
  from updateContentSlotsForView_keeps[OF 1(3)] have s3: "views s3 = views s2" by simp
  from getView_readsOnly[OF 1(4)] have s4: "views s4 = views s3" by (simp add: readsOnly_fields)
  from getDisplayById_result[OF 1(5)] 1(6) have s': "views s' = views s4" by simp
  let ?t = "v0\<lparr>view_name := name, view_columns := columns, view_rows := rows\<rparr>"
  from f2 g0 have f2': "find (\<lambda>x. view_id x = viewId) (views s2) = Some ?t" by (simp only:)
  from getView_found[OF 1(4)] s3 f2' have a: "fst v = ?t" by (simp only: option.inject)
  from f2' s3 s4 s' have b: "find (\<lambda>x. view_id x = viewId) (views s') = Some ?t" by (simp only:)
  from v0(1) b a show ?thesis by blast
qed

text \<open>The same for a run that fails, wherever it fails: the view may have its new name,
  columns and rows already, and it has the display, the position and the screen type that
  it had.\<close>

lemma viewRepository_updateView_any:
  assumes "viewRepository_updateView i name columns rows displayId order screenType s = (r, s')"
  shows "views s' = views s \<or>
         views s' = map (\<lambda>v. if view_id v = i
                   then v\<lparr>view_name := name, view_columns := columns, view_rows := rows,
                          view_displayId := displayId, view_order := order,
                          view_screenType := screenType\<rparr>
                   else v) (views s)"
  using assms
  by (auto simp: viewRepository_updateView_def orNotFound_def andThen_def succeed_def
        request_def Let_def split: if_splits option.splits)

lemma updateView_keeps_owner:
  assumes run: "updateView viewId name columns rows ds s = (r, s')"
  shows "map_option (\<lambda>x. (view_displayId x, view_order x, view_screenType x))
           (find (\<lambda>x. view_id x = viewId) (views s')) =
         map_option (\<lambda>x. (view_displayId x, view_order x, view_screenType x))
           (find (\<lambda>x. view_id x = viewId) (views s))"
proof -
  let ?P = "\<lambda>x. (view_displayId x, view_order x, view_screenType x)"
  let ?F = "\<lambda>x. view_id x = viewId"
  let ?K = "\<lambda>t. map_option ?P (find ?F (views t)) = map_option ?P (find ?F (views s))"
  obtain r1 s1 where g: "viewRepository_getViewById viewId s = (r1, s1)"
    by (cases "viewRepository_getViewById viewId s")
  from getViewById_readsOnly[OF g] have k1: "views s1 = views s" by (simp add: readsOnly_fields)
  show ?thesis
  proof (cases r1)
    case (Inl e)
    with run g have "s' = s1" by (simp add: updateView_def andThen_def)
    with k1 show ?thesis by simp
  next
    case v0: (Inr v0)
    from getViewById_found[OF g[unfolded v0]]
    have f0: "find ?F (views s) = Some v0" and i0: "view_id v0 = viewId" by simp_all
    let ?g = "\<lambda>x. x\<lparr>view_name := name, view_columns := columns, view_rows := rows,
                    view_displayId := view_displayId v0, view_order := view_order v0,
                    view_screenType := view_screenType v0\<rparr>"
    obtain r2 s2 where u: "viewRepository_updateView (view_id v0) name columns rows
        (view_displayId v0) (view_order v0) (view_screenType v0) s1 = (r2, s2)"
      by (cases "viewRepository_updateView (view_id v0) name columns rows
        (view_displayId v0) (view_order v0) (view_screenType v0) s1")
    have k2: "?K s2"
    proof -
      from viewRepository_updateView_any[OF u] k1 i0
      consider "views s2 = views s"
        | "views s2 = map (\<lambda>x. if view_id x = viewId then ?g x else x) (views s)"
        by auto
      then show ?thesis
      proof cases
        case 1
        then show ?thesis by simp
      next
        case 2
        have "find ?F (views s2) = map_option ?g (find ?F (views s))"
          unfolding 2 by (rule find_map_update) simp
        with f0 show ?thesis by simp
      qed
    qed
    show ?thesis
    proof (cases r2)
      case (Inl e)
      with run g v0 u have "s' = s2" by (simp add: updateView_def andThen_def)
      with k2 show ?thesis by simp
    next
      case uu: (Inr uu)
      obtain r3 s3 where c: "updateContentSlotsForView (view_id uu) ds s2 = (r3, s3)"
        by (cases "updateContentSlotsForView (view_id uu) ds s2")
      from updateContentSlotsForView_keeps[OF c] have k3: "views s3 = views s2" by simp
      show ?thesis
      proof (cases r3)
        case (Inl e)
        with run g v0 u uu c have "s' = s3" by (simp add: updateView_def andThen_def)
        with k2 k3 show ?thesis by simp
      next
        case ok: (Inr x)
        obtain r4 s4 where w: "getView viewId s3 = (r4, s4)" by (cases "getView viewId s3")
        from getView_readsOnly[OF w] have k4: "views s4 = views s3" by (simp add: readsOnly_fields)
        show ?thesis
        proof (cases r4)
          case (Inl e)
          with run g v0 u uu c ok w have "s' = s4" by (simp add: updateView_def andThen_def)
          with k2 k3 k4 show ?thesis by simp
        next
          case vv: (Inr vv)
          obtain r5 s5 where d: "getDisplayById (view_displayId (fst vv)) s4 = (r5, s5)"
            by (cases "getDisplayById (view_displayId (fst vv)) s4")
          from getDisplayById_result[OF d] have k5: "views s5 = views s4" by simp
          from run g v0 u uu c ok w vv d
          have "s' = s5\<lparr>pending := pending s5 @ [NotifyViewsUpdated r5]\<rparr>"
            by (simp add: updateView_def andThen_def detach_def succeed_def)
          with k2 k3 k4 k5 show ?thesis by simp
        qed
      qed
    qed
  qed
qed

section \<open>The view a slot belongs to\<close>

lemma removeContentSlot_slots:
  "removeContentSlot i s = (r, s') \<Longrightarrow> set (contentSlots s') \<subseteq> set (contentSlots s)"
  by (auto simp: removeContentSlot_def andThen_def succeed_def request_def Let_def
        contentSlotOptionRepository_deleteOptionsForContentSlot_def
        contentSlotRepository_deleteContentSlot_def split: if_splits)

lemma placeContentSlot_slots:
  "placeContentSlot v d s = (r, s') \<Longrightarrow> c \<in> set (contentSlots s') \<Longrightarrow>
     c \<in> set (contentSlots s) \<or> slot_viewId c = v"
  by (auto simp: placeContentSlot_def andThen_def succeed_def start_defs orNotFound_def
        request_def Let_def slot_repo_defs split: option.splits if_splits)

lemma updateContentSlotsForView_writes_own_view:
  assumes run: "updateContentSlotsForView v ds s = (r, s')"
  shows "list_all (\<lambda>c. c \<in> set (contentSlots s) \<or> slot_viewId c = v) (contentSlots s')"
proof -
  let ?R = "\<lambda>s s'. \<forall>c \<in> set (contentSlots s'). c \<in> set (contentSlots s) \<or> slot_viewId c = v"
  have get: "\<And>r1 s1. contentSlotRepository_getContentSlotsByViewId v s = (r1, s1) \<Longrightarrow> ?R s s1"
    by (auto simp: contentSlotRepository_getContentSlotsByViewId_def request_def Let_def split: if_splits)
  have rem: "\<And>xs t q t'. forEach xs removeContentSlot t = (q, t') \<Longrightarrow> ?R t t'"
    by (erule forEach_rel[rotated 3]) (blast dest: removeContentSlot_slots)+
  have put: "\<And>t q t'. forEach ds (placeContentSlot v) t = (q, t') \<Longrightarrow> ?R t t'"
    by (erule forEach_rel[rotated 3]) (blast dest: placeContentSlot_slots)+
  from run have "?R s s'"
    unfolding updateContentSlotsForView_def
    by (elim andThen_cases) (blast dest: get rem put)+
  then show ?thesis by (simp add: list_all_iff)
qed

text \<open>A slot that a descriptor of the list names by its identity belongs to the view of the
  call once the call has succeeded, whichever view it belonged to.\<close>

lemma placeContentSlot_owner_kept:
  assumes "placeContentSlot v d s = (r, s')"
    and "\<forall>c \<in> set (contentSlots s). slot_id c = i \<longrightarrow> slot_viewId c = v"
  shows "\<forall>c \<in> set (contentSlots s'). slot_id c = i \<longrightarrow> slot_viewId c = v"
  using assms
  by (auto simp: placeContentSlot_def andThen_def succeed_def start_defs orNotFound_def
        request_def Let_def slot_repo_defs split: option.splits if_splits)

lemma placeContentSlot_owner_set:
  assumes "placeContentSlot v d s = (Inr (), s')" and "desc_id d = Some i"
  shows "\<forall>c \<in> set (contentSlots s'). slot_id c = i \<longrightarrow> slot_viewId c = v"
  using assms
  by (auto simp: placeContentSlot_def andThen_def succeed_def start_defs orNotFound_def
        request_def Let_def slot_repo_defs find_Some_iff split: option.splits if_splits)

lemma placing_loop_owner_kept:
  assumes "forEach ds (placeContentSlot v) t = (r, t')"
    and "\<forall>c \<in> set (contentSlots t). slot_id c = i \<longrightarrow> slot_viewId c = v"
  shows "\<forall>c \<in> set (contentSlots t'). slot_id c = i \<longrightarrow> slot_viewId c = v"
proof -
  let ?I = "\<lambda>a. \<forall>c \<in> set (contentSlots a). slot_id c = i \<longrightarrow> slot_viewId c = v"
  have "?I t \<longrightarrow> ?I t'"
    by (rule forEach_rel[where R="\<lambda>a b. ?I a \<longrightarrow> ?I b", OF _ _ _ assms(1)])
       (blast dest: placeContentSlot_owner_kept)+
  with assms(2) show ?thesis by blast
qed

lemma placing_loop_owner:
  assumes "forEach ds (placeContentSlot v) t = (Inr (), t')"
    and "d \<in> set ds" and "desc_id d = Some i"
  shows "\<forall>c \<in> set (contentSlots t'). slot_id c = i \<longrightarrow> slot_viewId c = v"
  using assms
proof (induction ds arbitrary: t)
  case Nil
  then show ?case by simp
next
  case (Cons d' ds)
  from Cons.prems(1) obtain t1 where st: "placeContentSlot v d' t = (Inr (), t1)"
    and rest: "forEach ds (placeContentSlot v) t1 = (Inr (), t')"
    by (auto split: prod.splits sum.splits)
  show ?case
  proof (cases "d = d'")
    case True
    from placeContentSlot_owner_set[OF st] True Cons.prems(3)
    have "\<forall>c \<in> set (contentSlots t1). slot_id c = i \<longrightarrow> slot_viewId c = v" by simp
    with rest show ?thesis by (rule placing_loop_owner_kept)
  next
    case False
    with Cons.prems(2) have "d \<in> set ds" by simp
    from Cons.IH[OF rest this Cons.prems(3)] show ?thesis .
  qed
qed

lemma updateContentSlotsForView_takes_named_slots:
  assumes run: "updateContentSlotsForView v ds s = (Inr (), s')"
  shows "list_all (\<lambda>c. Some (slot_id c) \<in> desc_id ` set ds \<longrightarrow> slot_viewId c = v) (contentSlots s')"
proof -
  from run obtain t where "forEach ds (placeContentSlot v) t = (Inr (), s')"
    unfolding updateContentSlotsForView_def by (elim andThen_cases) auto
  from placing_loop_owner[OF this] show ?thesis
    unfolding list_all_iff by (metis imageE)
qed

text \<open>
  C6, as the code has it. \<^verbatim>\<open>updateView\<close> never changes the display, the position or the
  screen type of the view, whether it succeeds or fails and wherever it fails: what it
  hands to the repository for these three fields is what it has read from the stored
  record. When it succeeds, the stored and returned record is the old one with the name,
  the columns and the rows of the caller. Every slot row that \<^verbatim>\<open>updateContentSlotsForView\<close>
  writes, whatever the descriptors say and whether the call succeeds or not, carries the
  view argument of the call: a row stored afterwards is a row that was stored before, or
  belongs to that view. And when the call succeeds, every stored slot whose identity a
  descriptor carries belongs to that view, also when it belonged to another view before.
\<close>

theorem updateView_and_slots_keep_their_owner:
  "map_option (\<lambda>x. (view_displayId x, view_order x, view_screenType x))
     (find (\<lambda>x. view_id x = viewId)
        (views (snd (updateView viewId name columns rows newContentSlots s)))) =
   map_option (\<lambda>x. (view_displayId x, view_order x, view_screenType x))
     (find (\<lambda>x. view_id x = viewId) (views s)) \<and>
   (updateView viewId name columns rows newContentSlots s = (Inr v, s') \<longrightarrow>
      (\<exists>v0. find (\<lambda>x. view_id x = viewId) (views s) = Some v0 \<and>
         find (\<lambda>x. view_id x = viewId) (views s') =
           Some (v0\<lparr>view_name := name, view_columns := columns, view_rows := rows\<rparr>) \<and>
         fst v = v0\<lparr>view_name := name, view_columns := columns, view_rows := rows\<rparr>)) \<and>
   list_all (\<lambda>c. c \<in> set (contentSlots t) \<or> slot_viewId c = w)
     (contentSlots (snd (updateContentSlotsForView w ds t))) \<and>
   (updateContentSlotsForView w ds t = (Inr (), t') \<longrightarrow>
      list_all (\<lambda>c. Some (slot_id c) \<in> desc_id ` set ds \<longrightarrow> slot_viewId c = w) (contentSlots t'))"
  using updateView_keeps_owner[of viewId name columns rows newContentSlots s
      "fst (updateView viewId name columns rows newContentSlots s)"
      "snd (updateView viewId name columns rows newContentSlots s)"]
    updateView_keeps_placement[of viewId name columns rows newContentSlots s v s']
    updateContentSlotsForView_writes_own_view[of w ds t "fst (updateContentSlotsForView w ds t)"
      "snd (updateContentSlotsForView w ds t)"]
    updateContentSlotsForView_takes_named_slots[of w ds t t']
  by simp

text \<open>
  C6 as stated fails: slot 1 belongs to view 2; reconciling view 1 with a descriptor that
  carries the identity 1 succeeds and moves the slot to view 1.
\<close>

theorem slot_of_another_view_is_reparented:
  "map (\<lambda>c. (slot_id c, slot_viewId c)) (contentSlots slotInSecondView) = [(1, 2)] \<and>
   fst (updateContentSlotsForView 1 [clock\<lparr>desc_id := Some 1\<rparr>] slotInSecondView) = Inr () \<and>
   map (\<lambda>c. (slot_id c, slot_viewId c))
     (contentSlots (snd (updateContentSlotsForView 1 [clock\<lparr>desc_id := Some 1\<rparr>] slotInSecondView))) =
     [(1, 1)]"
  by code_simp

theorem updateView_and_slots_keep_their_owner_witness:
  "fst (updateView 1 ''n'' 3 3 [clock\<lparr>desc_id := Some 99\<rparr>] oneView) = Inl NotFound \<and>
   map_option (\<lambda>x. (view_name x, view_displayId x, view_order x, view_screenType x))
     (find (\<lambda>x. view_id x = 1)
        (views (snd (updateView 1 ''n'' 3 3 [clock\<lparr>desc_id := Some 99\<rparr>] oneView)))) =
     Some (''n'', 1, 1, ''idle'') \<and>
   fst (updateView 1 ''n'' 3 3 [] oneView) =
     Inr (\<lparr>view_id = 1, view_name = ''n'', view_columns = 3, view_rows = 3, view_displayId = 1,
           view_order = 1, view_screenType = ''idle''\<rparr>, []) \<and>
   find (\<lambda>x. view_id x = 1) (views (snd (updateView 1 ''n'' 3 3 [] oneView))) =
     Some \<lparr>view_id = 1, view_name = ''n'', view_columns = 3, view_rows = 3, view_displayId = 1,
           view_order = 1, view_screenType = ''idle''\<rparr> \<and>
   list_all (\<lambda>c. c \<in> set (contentSlots slotInSecondView) \<or> slot_viewId c = 1)
     (contentSlots (snd (updateContentSlotsForView 1
        [clock\<lparr>desc_id := Some 1, desc_viewId := Some 2\<rparr>] slotInSecondView))) \<and>
   fst (updateContentSlotsForView 1
        [clock\<lparr>desc_id := Some 1, desc_viewId := Some 2\<rparr>] slotInSecondView) = Inr () \<and>
   list_all (\<lambda>c. slot_viewId c = 1)
     (contentSlots (snd (updateContentSlotsForView 1
        [clock\<lparr>desc_id := Some 1, desc_viewId := Some 2\<rparr>] slotInSecondView)))"
proof -
  let ?v = "(\<lparr>view_id = 1, view_name = ''n'', view_columns = 3, view_rows = 3, view_displayId = 1,
           view_order = 1, view_screenType = ''idle''\<rparr>, []) :: enrichedView"
  let ?f = "updateView 1 ''n'' 3 3 [clock\<lparr>desc_id := Some 99\<rparr>] oneView"
  let ?u = "updateView 1 ''n'' 3 3 [] oneView"
  let ?ds = "[clock\<lparr>desc_id := Some 1, desc_viewId := Some 2\<rparr>]"
  let ?c = "updateContentSlotsForView 1 ?ds slotInSecondView"
  have f0: "fst ?f = Inl NotFound" by code_simp
  have n0: "map_option view_name (find (\<lambda>x. view_id x = 1) (views (snd ?f))) = Some ''n''"
    by code_simp
  have p0: "map_option (\<lambda>x. (view_displayId x, view_order x, view_screenType x))
     (find (\<lambda>x. view_id x = 1) (views oneView)) = Some (1, 1, ''idle'')" by code_simp
  have u0: "fst ?u = Inr ?v" by code_simp
  then have u: "?u = (Inr ?v, snd ?u)" by (simp add: prod_eq_iff)
  have c0: "fst ?c = Inr ()" by code_simp
  then have c: "?c = (Inr (), snd ?c)" by (simp add: prod_eq_iff)
  have named: "list_all (\<lambda>c. Some (slot_id c) \<in> desc_id ` set ?ds) (contentSlots (snd ?c))"
    by code_simp
  note a = updateView_and_slots_keep_their_owner[where viewId=1 and name="''n''" and columns=3
      and rows=3 and newContentSlots="[clock\<lparr>desc_id := Some 99\<rparr>]" and s=oneView
      and w=1 and ds="?ds" and t=slotInSecondView and t'="snd ?c"]
  note b = updateView_and_slots_keep_their_owner[where viewId=1 and name="''n''" and columns=3
      and rows=3 and newContentSlots="[]" and s=oneView and v="?v" and s'="snd ?u"]
  from a p0 have "map_option (\<lambda>x. (view_displayId x, view_order x, view_screenType x))
     (find (\<lambda>x. view_id x = 1) (views (snd ?f))) = Some (1, 1, ''idle'')" by simp
  with n0 have f1: "map_option (\<lambda>x. (view_name x, view_displayId x, view_order x, view_screenType x))
     (find (\<lambda>x. view_id x = 1) (views (snd ?f))) = Some (''n'', 1, 1, ''idle'')"
    by (cases "find (\<lambda>x. view_id x = 1) (views (snd ?f))") auto
  from b u obtain v0 where
    "find (\<lambda>x. view_id x = 1) (views (snd ?u)) =
       Some (v0\<lparr>view_name := ''n'', view_columns := 3, view_rows := 3\<rparr>)"
    "fst ?v = v0\<lparr>view_name := ''n'', view_columns := 3, view_rows := 3\<rparr>"
    by blast
  then have "find (\<lambda>x. view_id x = 1) (views (snd ?u)) = Some (fst ?v)" by (simp only:)
  then have u1: "find (\<lambda>x. view_id x = 1) (views (snd ?u)) =
     Some \<lparr>view_id = 1, view_name = ''n'', view_columns = 3, view_rows = 3, view_displayId = 1,
           view_order = 1, view_screenType = ''idle''\<rparr>" by (simp only: fst_conv)
  from a have s1: "list_all (\<lambda>c. c \<in> set (contentSlots slotInSecondView) \<or> slot_viewId c = 1)
     (contentSlots (snd ?c))" by blast
  from a c have "list_all (\<lambda>c. Some (slot_id c) \<in> desc_id ` set ?ds \<longrightarrow> slot_viewId c = 1)
     (contentSlots (snd ?c))" by blast
  with named have s2: "list_all (\<lambda>c. slot_viewId c = 1) (contentSlots (snd ?c))"
    unfolding list_all_iff by blast
  from f0 f1 u0 u1 s1 c0 s2 show ?thesis by blast
qed

section \<open>Removed slots\<close>

lemma removalCalls_Cons:
  "removalCalls (i # ids) = DeleteOptionsForContentSlot i # DeleteContentSlot i # removalCalls ids"
  by (simp add: removalCalls_def)

lemma removeContentSlot_cases:
  assumes "removeContentSlot i s = (r, s')"
  obtains (options_failed) "r = Inl StorageFailure"
            "s' = s\<lparr>trace := trace s @ [DeleteOptionsForContentSlot i]\<rparr>"
        | (slot_failed) "r = Inl StorageFailure"
            "trace s' = trace s @ [DeleteOptionsForContentSlot i, DeleteContentSlot i]"
        | (removed) "r = Inr ()"
            "s' = s\<lparr>trace := trace s @ [DeleteOptionsForContentSlot i, DeleteContentSlot i],
                    contentSlotOptions := filter (\<lambda>row. fst row \<noteq> i) (contentSlotOptions s),
                    contentSlots := filter (\<lambda>c. slot_id c \<noteq> i) (contentSlots s)\<rparr>"
  using assms
  by (auto simp: removeContentSlot_def andThen_def succeed_def request_def Let_def
        contentSlotOptionRepository_deleteOptionsForContentSlot_def
        contentSlotRepository_deleteContentSlot_def split: if_splits)

lemma removal_loop:
  assumes "forEach ids removeContentSlot s = (r, s')"
  shows "(\<exists>n. trace s' = trace s @ take n (removalCalls ids)) \<and>
         (r = Inr () \<longrightarrow>
            trace s' = trace s @ removalCalls ids \<and>
            contentSlotOptions s' = filter (\<lambda>row. fst row \<notin> set ids) (contentSlotOptions s) \<and>
            contentSlots s' = filter (\<lambda>c. slot_id c \<notin> set ids) (contentSlots s))"
  using assms
proof (induction ids arbitrary: s)
  case Nil
  then show ?case by (simp add: removalCalls_def)
next
  case (Cons i ids)
  obtain r1 s1 where st: "removeContentSlot i s = (r1, s1)" by (cases "removeContentSlot i s")
  from st show ?case
  proof (cases rule: removeContentSlot_cases)
    case options_failed
    with Cons.prems st have "r = Inl StorageFailure" "s' = s1" by simp_all
    with options_failed have "trace s' = trace s @ take 1 (removalCalls (i # ids))"
      by (simp add: removalCalls_Cons)
    with \<open>r = Inl StorageFailure\<close> show ?thesis by blast
  next
    case slot_failed
    with Cons.prems st have "r = Inl StorageFailure" "s' = s1" by simp_all
    with slot_failed have "trace s' = trace s @ take 2 (removalCalls (i # ids))"
      by (simp add: removalCalls_Cons)
    with \<open>r = Inl StorageFailure\<close> show ?thesis by blast
  next
    case removed
    with Cons.prems st have rest: "forEach ids removeContentSlot s1 = (r, s')" by simp
    note ih = Cons.IH[OF rest]
    from ih obtain n where "trace s' = trace s1 @ take n (removalCalls ids)" by blast
    with removed have "trace s' = trace s @ take (Suc (Suc n)) (removalCalls (i # ids))"
      by (simp add: removalCalls_Cons)
    then have a: "\<exists>n. trace s' = trace s @ take n (removalCalls (i # ids))" ..
    have b: "r = Inr () \<longrightarrow>
            trace s' = trace s @ removalCalls (i # ids) \<and>
            contentSlotOptions s' = filter (\<lambda>row. fst row \<notin> set (i # ids)) (contentSlotOptions s) \<and>
            contentSlots s' = filter (\<lambda>c. slot_id c \<notin> set (i # ids)) (contentSlots s)"
      using ih removed by (auto simp: removalCalls_Cons intro: filter_cong)
    from a b show ?thesis by blast
  qed
qed

lemma placing_loop:
  assumes "forEach ds (placeContentSlot v) t = (q, t')"
  shows "extendsBy (\<lambda>c. \<not> removalCall c) t t' \<and> contentSlotOptions t' = contentSlotOptions t"
proof -
  have "extendsBy (\<lambda>c. \<not> removalCall c) t t'"
    using assms
    by (rule forEach_rel[rotated 3])
       (auto intro: placeContentSlot_extendsBy[where P="\<lambda>c. \<not> removalCall c"]
          extendsBy_refl extendsBy_trans)
  moreover have "contentSlotOptions t' = contentSlotOptions t"
    using assms
    by (rule forEach_rel[where R="\<lambda>a b. contentSlotOptions b = contentSlotOptions a", rotated 3])
       (auto dest: placeContentSlot_keeps)
  ultimately show ?thesis by simp
qed

lemma getContentSlotsByViewId_cases:
  assumes "contentSlotRepository_getContentSlotsByViewId v s = (r, s1)"
  obtains (rejected) "r = Inl StorageFailure" "s1 = s\<lparr>trace := trace s @ [GetContentSlotsByViewId v]\<rparr>"
        | (served) "r = Inr (filter (\<lambda>c. slot_viewId c = v) (contentSlots s))"
                   "s1 = s\<lparr>trace := trace s @ [GetContentSlotsByViewId v]\<rparr>"
  using assms
  by (auto simp: contentSlotRepository_getContentSlotsByViewId_def request_def Let_def split: if_splits)

lemma updateContentSlotsForView_steps:
  assumes "updateContentSlotsForView v ds s = (r, s')"
  obtains (read_failed) "r = Inl StorageFailure" "s' = s\<lparr>trace := trace s @ [GetContentSlotsByViewId v]\<rparr>"
        | (removal_failed) e where "r = Inl e"
            "forEach (removedComponents (filter (\<lambda>c. slot_viewId c = v) (contentSlots s)) ds)
               removeContentSlot (s\<lparr>trace := trace s @ [GetContentSlotsByViewId v]\<rparr>) = (Inl e, s')"
        | (placing) s2 where
            "forEach (removedComponents (filter (\<lambda>c. slot_viewId c = v) (contentSlots s)) ds)
               removeContentSlot (s\<lparr>trace := trace s @ [GetContentSlotsByViewId v]\<rparr>) = (Inr (), s2)"
            "forEach ds (placeContentSlot v) s2 = (r, s')"
  using assms unfolding updateContentSlotsForView_def
  by (elim andThen_cases getContentSlotsByViewId_cases) auto

subsection \<open>The tasks left behind touch other slots\<close>

lemma filter_filter_same: "(\<And>x. P x \<Longrightarrow> Q x) \<Longrightarrow> filter P (filter Q xs) = filter P xs"
  by (induction xs) auto

lemma filter_map_same: "(\<And>x. P (f x) = P x) \<Longrightarrow> (\<And>x. P x \<Longrightarrow> f x = x) \<Longrightarrow>
    filter P (map f xs) = filter P xs"
  by (induction xs) auto

lemma option_write_other_slot:
  assumes "i \<noteq> c"
  shows "contentSlotOptionRepository_deleteOption c k s = (r, s') \<Longrightarrow> optionsOf i s' = optionsOf i s"
    and "contentSlotOptionRepository_updateOption c k v s = (r, s') \<Longrightarrow> optionsOf i s' = optionsOf i s"
    and "contentSlotOptionRepository_createOption c k v s = (r, s') \<Longrightarrow> optionsOf i s' = optionsOf i s"
    and "contentSlotOptionRepository_getOptionsForContentSlot c s = (r2, s') \<Longrightarrow> optionsOf i s' = optionsOf i s"
proof -
  let ?mine = "\<lambda>row :: nat \<times> string \<times> scalar. fst row = i"
  {
    assume "contentSlotOptionRepository_deleteOption c k s = (r, s')"
    then have "contentSlotOptions s' = contentSlotOptions s \<or>
       contentSlotOptions s' =
         filter (\<lambda>row. \<not> (fst row = c \<and> fst (snd row) = k)) (contentSlotOptions s)"
      unfolding contentSlotOptionRepository_deleteOption_def
      by (cases rule: request_cases) simp_all
    moreover have "filter ?mine (filter (\<lambda>row. \<not> (fst row = c \<and> fst (snd row) = k)) (contentSlotOptions s))
        = filter ?mine (contentSlotOptions s)"
      by (rule filter_filter_same) (use assms in simp)
    ultimately have "filter ?mine (contentSlotOptions s') = filter ?mine (contentSlotOptions s)"
      by (elim disjE) (simp_all only:)
    then show "optionsOf i s' = optionsOf i s" by (simp only: optionsOf_def)
  }
  {
    assume "contentSlotOptionRepository_updateOption c k v s = (r, s')"
    then have "contentSlotOptions s' = contentSlotOptions s \<or>
       contentSlotOptions s' =
         map (\<lambda>row. if fst row = c \<and> fst (snd row) = k then (c, k, v) else row) (contentSlotOptions s)"
      unfolding contentSlotOptionRepository_updateOption_def
      by (cases rule: request_cases) simp_all
    moreover have "filter ?mine (map (\<lambda>row. if fst row = c \<and> fst (snd row) = k then (c, k, v) else row)
           (contentSlotOptions s)) = filter ?mine (contentSlotOptions s)"
      by (rule filter_map_same) (use assms in auto)
    ultimately have "filter ?mine (contentSlotOptions s') = filter ?mine (contentSlotOptions s)"
      by (elim disjE) (simp_all only:)
    then show "optionsOf i s' = optionsOf i s" by (simp only: optionsOf_def)
  }
  {
    assume "contentSlotOptionRepository_createOption c k v s = (r, s')"
    then have "contentSlotOptions s' = contentSlotOptions s \<or>
       contentSlotOptions s' = contentSlotOptions s @ [(c, k, v)]"
      unfolding contentSlotOptionRepository_createOption_def
      by (cases rule: request_cases) simp_all
    with assms have "filter ?mine (contentSlotOptions s') = filter ?mine (contentSlotOptions s)"
      by auto
    then show "optionsOf i s' = optionsOf i s" by (simp only: optionsOf_def)
  }
  {
    assume "contentSlotOptionRepository_getOptionsForContentSlot c s = (r2, s')"
    then have "contentSlotOptions s' = contentSlotOptions s"
      unfolding contentSlotOptionRepository_getOptionsForContentSlot_def
      by (cases rule: request_cases) simp_all
    then show "optionsOf i s' = optionsOf i s" by (simp only: optionsOf_def)
  }
qed

lemma writeOptions_other_slot:
  assumes "i \<noteq> c" and run: "writeOptions c opts existing s = (r, s')"
  shows "optionsOf i s' = optionsOf i s"
proof -
  let ?R = "\<lambda>a b. optionsOf i b = optionsOf i a"
  have get: "\<And>t q t'. contentSlotOptionRepository_getOptionsForContentSlot c t = (q, t') \<Longrightarrow> ?R t t'"
    using option_write_other_slot(4)[OF assms(1)] by blast
  have del: "\<And>ks K t q t'. forEach ks (\<lambda>key. if key \<notin> K
                then contentSlotOptionRepository_deleteOption c key else succeed ()) t = (q, t') \<Longrightarrow> ?R t t'"
    by (erule forEach_rel[rotated 3])
       (auto simp: succeed_def split: if_splits dest: option_write_other_slot(1)[OF assms(1)])
  have put: "\<And>E t q t'. forEach opts (\<lambda>(key, val). if key \<in> E
                then contentSlotOptionRepository_updateOption c key val
                else contentSlotOptionRepository_createOption c key val) t = (q, t') \<Longrightarrow> ?R t t'"
    by (erule forEach_rel[rotated 3])
       (auto split: if_splits dest: option_write_other_slot(2,3)[OF assms(1)])
  from run show ?thesis
    unfolding writeOptions_def
    by (elim andThen_cases) (auto dest!: get del put)
qed

lemma setOptions_other_slot:
  assumes "i \<noteq> c" and run: "setOptionsForContentSlot c opts s = (r, s')"
  shows "optionsOf i s' = optionsOf i s"
  using run unfolding setOptionsForContentSlot_def
proof (cases rule: andThen_cases)
  case (failed e)
  from option_write_other_slot(4)[OF assms(1) failed(1)] show ?thesis .
next
  case (went_on x s1)
  from option_write_other_slot(4)[OF assms(1) went_on(1)]
    writeOptions_other_slot[OF assms(1) went_on(2)]
  show ?thesis by simp
qed

lemma runTask_other_slot:
  assumes "taskSlot t \<noteq> Some i"
  shows "optionsOf i (runTask t s) = optionsOf i s"
proof (cases t)
  case (SetOptionsTask c opts answer)
  with assms have ic: "i \<noteq> c" by auto
  show ?thesis
  proof (cases answer)
    case (Inl e)
    with SetOptionsTask show ?thesis by (simp add: andThen_def settled_def)
  next
    case (Inr existing)
    from writeOptions_other_slot[OF ic, of opts existing s] SetOptionsTask Inr show ?thesis
      by (cases "writeOptions c opts existing s") (simp add: andThen_def settled_def)
  qed
next
  case (NotifyViewsUpdated answer)
  then show ?thesis
    by (simp add: catchAndLog_def andThen_def settled_def emit_def Let_def optionsOf_def
          split: sum.splits)
qed

lemma fold_runTask_other_slot:
  "list_all (\<lambda>t. taskSlot t \<noteq> Some i) ts \<Longrightarrow> optionsOf i (fold runTask ts s) = optionsOf i s"
  by (induction ts arbitrary: s) (auto simp: runTask_other_slot)

lemma settle_other_slot:
  assumes "list_all (\<lambda>t. taskSlot t \<noteq> Some i) (pending s)"
  shows "optionsOf i (settle s) = optionsOf i s"
  using fold_runTask_other_slot[OF assms, of "s\<lparr>pending := []\<rparr>"]
  by (simp add: settle_def optionsOf_def)

lemma set_map_filter_desc_id:
  "set (List.map_filter desc_id ds) = {i. \<exists>d \<in> set ds. desc_id d = Some i}"
  by (induction ds) (auto simp: List.map_filter_simps split: option.splits)

lemma removeContentSlot_counter:
  "removeContentSlot i s = (r, s') \<Longrightarrow>
     nextContentSlotId s' = nextContentSlotId s \<and> pending s' = pending s"
  by (auto simp: removeContentSlot_def andThen_def succeed_def request_def Let_def
        contentSlotOptionRepository_deleteOptionsForContentSlot_def
        contentSlotRepository_deleteContentSlot_def split: if_splits)

lemma removal_loop_rest:
  assumes "forEach ids removeContentSlot s = (r, s')"
  shows "nextContentSlotId s' = nextContentSlotId s \<and> pending s' = pending s"
  using assms
  by (rule forEach_rel[where R="\<lambda>a b. nextContentSlotId b = nextContentSlotId a \<and> pending b = pending a", rotated 3])
     (auto dest: removeContentSlot_counter)

lemma placeContentSlot_task:
  assumes "placeContentSlot v d s = (r, s')"
  shows "nextContentSlotId s \<le> nextContentSlotId s' \<and>
         (\<exists>tasks. pending s' = pending s @ tasks \<and>
            list_all (\<lambda>tk. \<exists>c. taskSlot tk = Some c \<and>
                         (desc_id d = Some c \<or> nextContentSlotId s \<le> c)) tasks)"
proof (cases "desc_id d")
  case None
  with assms show ?thesis
    by (auto simp: placeContentSlot_def andThen_def start_defs request_def Let_def
          contentSlotRepository_createContentSlot_def split: if_splits)
next
  case (Some i)
  from assms Some show ?thesis
    by (auto simp: placeContentSlot_def andThen_def start_defs succeed_def orNotFound_def
          request_def Let_def contentSlotRepository_getContentSlot_def
          contentSlotRepository_updateContentSlot_def find_Some_iff
          split: if_splits option.splits)
qed

lemma placing_loop_tasks:
  assumes "forEach ds (placeContentSlot v) t = (q, t')"
  shows "nextContentSlotId t \<le> nextContentSlotId t' \<and>
         (\<exists>tasks. pending t' = pending t @ tasks \<and>
            list_all (\<lambda>tk. \<exists>c. taskSlot tk = Some c \<and>
                         (c \<in> set (List.map_filter desc_id ds) \<or> nextContentSlotId t \<le> c)) tasks)"
proof -
  let ?R = "\<lambda>a b. nextContentSlotId a \<le> nextContentSlotId b \<and>
         (\<exists>tasks. pending b = pending a @ tasks \<and>
            list_all (\<lambda>tk. \<exists>c. taskSlot tk = Some c \<and>
                         (c \<in> set (List.map_filter desc_id ds) \<or> nextContentSlotId a \<le> c)) tasks)"
  show ?thesis
    using assms
  proof (rule forEach_rel[where R="?R", rotated 3])
    fix d a r b
    assume d: "d \<in> set ds" and st: "placeContentSlot v d a = (r, b)"
    from placeContentSlot_task[OF st] d show "?R a b"
      by (auto simp: set_map_filter_desc_id list_all_iff) blast
  next
    fix a show "?R a a" by simp
  next
    fix a b c
    assume ab: "?R a b" and bc: "?R b c"
    from ab obtain t1 where t1: "pending b = pending a @ t1"
      "list_all (\<lambda>tk. \<exists>c. taskSlot tk = Some c \<and>
                         (c \<in> set (List.map_filter desc_id ds) \<or> nextContentSlotId a \<le> c)) t1"
      by blast
    from bc obtain t2 where t2: "pending c = pending b @ t2"
      "list_all (\<lambda>tk. \<exists>c. taskSlot tk = Some c \<and>
                         (c \<in> set (List.map_filter desc_id ds) \<or> nextContentSlotId b \<le> c)) t2"
      by blast
    from ab have le: "nextContentSlotId a \<le> nextContentSlotId b" by simp
    from t2(2) le have "list_all (\<lambda>tk. \<exists>c. taskSlot tk = Some c \<and>
                         (c \<in> set (List.map_filter desc_id ds) \<or> nextContentSlotId a \<le> c)) t2"
      by (auto simp: list_all_iff)
    with t1 t2 have "pending c = pending a @ (t1 @ t2) \<and>
       list_all (\<lambda>tk. \<exists>c. taskSlot tk = Some c \<and>
                         (c \<in> set (List.map_filter desc_id ds) \<or> nextContentSlotId a \<le> c)) (t1 @ t2)"
      by simp
    moreover from ab bc have "nextContentSlotId a \<le> nextContentSlotId c" by simp
    ultimately show "?R a c" by blast
  qed
qed

lemma removedSlots_member:
  assumes "i \<in> set (removedSlots v ds s)"
  shows "i \<in> slot_id ` set (contentSlots s) \<and> i \<notin> set (List.map_filter desc_id ds)"
  using assms by (auto simp: removedSlots_def removedComponents_def Let_def)

lemma optionsOf_removed:
  assumes "contentSlotOptions s' = filter (\<lambda>row. fst row \<notin> set ids) (contentSlotOptions s)"
    and "i \<in> set ids"
  shows "optionsOf i s' = []"
  using assms by (auto simp: optionsOf_def filter_empty_conv)

text \<open>
  What holds of the removals in every state. Whatever the outcome of
  \<^verbatim>\<open>updateContentSlotsForView\<close>, its calls are a read of the view's slots, then for the
  removed slots in turn the deletion of the slot's options followed at once by the deletion
  of the slot, then calls that delete nothing: no slot is deleted before its options. When
  the call succeeds in a store where no option reconciliation of an earlier call is
  pending (and whose identifiers came from the counter), storage holds no option for a
  removed slot at the return, nor once the reconciliations that the call has started have
  run: they are for other slots.
\<close>

lemma removal_deletes_options_first:
  assumes run: "updateContentSlotsForView viewId newContentSlots s = (r, s')"
  shows "(\<exists>n rest. drop (length (trace s)) (trace s') =
            take n (GetContentSlotsByViewId viewId # removalCalls (removedSlots viewId newContentSlots s)) @ rest \<and>
            list_all (\<lambda>c. \<not> removalCall c) rest) \<and>
         (r = Inr () \<longrightarrow>
            (\<exists>rest. drop (length (trace s)) (trace s') =
               GetContentSlotsByViewId viewId # removalCalls (removedSlots viewId newContentSlots s) @ rest \<and>
               list_all (\<lambda>c. \<not> removalCall c) rest) \<and>
            (pending s = [] \<longrightarrow> slotIdsIssued s \<longrightarrow>
               list_all (\<lambda>i. optionsOf i s' = [] \<and> optionsOf i (settle s') = [])
                 (removedSlots viewId newContentSlots s)))"
proof -
  let ?removed = "removedSlots viewId newContentSlots s"
  let ?s1 = "s\<lparr>trace := trace s @ [GetContentSlotsByViewId viewId]\<rparr>"
  let ?pattern = "GetContentSlotsByViewId viewId # removalCalls ?removed"
  from run show ?thesis
  proof (cases rule: updateContentSlotsForView_steps)
    case read_failed
    then have "drop (length (trace s)) (trace s') = take 1 ?pattern @ []" by simp
    moreover have "list_all (\<lambda>c. \<not> removalCall c) []" by simp
    ultimately show ?thesis using read_failed(1) by blast
  next
    case (removal_failed e)
    from removal_loop[OF removal_failed(2)[folded removedSlots_def]]
    obtain n where "trace s' = trace ?s1 @ take n (removalCalls ?removed)" by blast
    then have "drop (length (trace s)) (trace s') = take (Suc n) ?pattern @ []" by simp
    moreover have "list_all (\<lambda>c. \<not> removalCall c) []" by simp
    ultimately show ?thesis using removal_failed(1) by blast
  next
    case (placing s2)
    note rem = removal_loop[OF placing(1)[folded removedSlots_def]]
    from rem have t2: "trace s2 = trace ?s1 @ removalCalls ?removed"
      and o2: "contentSlotOptions s2 = filter (\<lambda>row. fst row \<notin> set ?removed) (contentSlotOptions ?s1)"
      by simp_all
    from placing_loop[OF placing(2)] obtain rest where
      rest: "trace s' = trace s2 @ rest" "list_all (\<lambda>c. \<not> removalCall c) rest"
      and o': "contentSlotOptions s' = contentSlotOptions s2"
      by (auto simp: extendsBy_def)
    from t2 rest(1) have dr: "drop (length (trace s)) (trace s') = ?pattern @ rest" by simp
    then have "drop (length (trace s)) (trace s') = take (length ?pattern) ?pattern @ rest" by simp
    with rest(2) have a: "\<exists>n rest. drop (length (trace s)) (trace s') = take n ?pattern @ rest \<and>
            list_all (\<lambda>c. \<not> removalCall c) rest" by blast
    from dr rest(2) have b: "\<exists>rest. drop (length (trace s)) (trace s') =
               GetContentSlotsByViewId viewId # removalCalls ?removed @ rest \<and>
               list_all (\<lambda>c. \<not> removalCall c) rest" by auto
    from o2 o' have o: "contentSlotOptions s' = filter (\<lambda>row. fst row \<notin> set ?removed) (contentSlotOptions s)"
      by simp
    have c: "list_all (\<lambda>i. optionsOf i s' = []) ?removed"
      using optionsOf_removed[OF o] by (simp add: list_all_iff)
    have d: "list_all (\<lambda>i. optionsOf i s' = [] \<and> optionsOf i (settle s') = []) ?removed"
      if p: "pending s = []" and w: "slotIdsIssued s"
    proof -
      from removal_loop_rest[OF placing(1)] have n2: "nextContentSlotId s2 = nextContentSlotId s"
        and p2: "pending s2 = pending s" by simp_all
      from placing_loop_tasks[OF placing(2)] p2 p n2 obtain tasks where
        tasks: "pending s' = tasks"
          "list_all (\<lambda>tk. \<exists>c. taskSlot tk = Some c \<and>
             (c \<in> set (List.map_filter desc_id newContentSlots) \<or> nextContentSlotId s \<le> c)) tasks"
        by auto
      have "optionsOf i (settle s') = []" if i: "i \<in> set ?removed" for i
      proof -
        from removedSlots_member[OF i] w have lt: "i < nextContentSlotId s"
          and ns: "i \<notin> set (List.map_filter desc_id newContentSlots)"
          by (auto simp: slotIdsIssued_def list_all_iff)
        with tasks have "list_all (\<lambda>t. taskSlot t \<noteq> Some i) (pending s')"
          by (auto simp: list_all_iff)
        from settle_other_slot[OF this] c i show ?thesis by (simp add: list_all_iff)
      qed
      with c show ?thesis by (simp add: list_all_iff)
    qed
    from a b d show ?thesis by blast
  qed
qed


text \<open>
  C5 is not what the code does when an option reconciliation is still running. The first
  call keeps slot 1 and gives it ten options, nine of them new; it returns while the
  reconciliation of these options, started without \<^verbatim>\<open>await\<close>, has read the stored options
  and written nothing yet. The second call, with the empty list, removes slot 1: it
  deletes the options of the slot, then the slot, in that order, and succeeds. The writes
  of the reconciliation reach storage after that: the slot is gone, and storage holds nine
  options under its identity.
\<close>

theorem removed_slot_gets_options_back:
  "fst (updateContentSlotsForView 1 desiredRestyled scenarioA) = Inr () \<and>
   pending (snd (updateContentSlotsForView 1 desiredRestyled scenarioA)) =
     [SetOptionsTask 1 (optionsOrEmpty (hd desiredRestyled)) (Inr [(''color'', Str ''red'')])] \<and>
   fst (updateContentSlotsForView 1 []
          (snd (updateContentSlotsForView 1 desiredRestyled scenarioA))) = Inr () \<and>
   removedSlots 1 [] (snd (updateContentSlotsForView 1 desiredRestyled scenarioA)) = [1] \<and>
   filter removalCall
     (drop (length (trace (snd (updateContentSlotsForView 1 desiredRestyled scenarioA))))
        (trace (snd (updateContentSlotsForView 1 []
           (snd (updateContentSlotsForView 1 desiredRestyled scenarioA)))))) =
     [DeleteOptionsForContentSlot 1, DeleteContentSlot 1] \<and>
   contentSlots (snd (updateContentSlotsForView 1 []
          (snd (updateContentSlotsForView 1 desiredRestyled scenarioA)))) = [] \<and>
   optionsOf 1 (settle (snd (updateContentSlotsForView 1 []
          (snd (updateContentSlotsForView 1 desiredRestyled scenarioA))))) =
     [(''size'', Num 2), (''font'', Str ''mono''), (''align'', Str ''left''),
      (''border'', Boolean True), (''label'', Str ''exit''), (''icon'', Str ''door''),
      (''title'', Str ''way out''), (''unit'', Null), (''theme'', Str ''dark'')]"
  by code_simp

section \<open>Option reconciliations that nobody awaits\<close>

text \<open>
  C1 is not what the code does. The desired list holds slot 1 of scenario A with the
  option color = blue. The call returns successfully while storage still holds color = red:
  the reconciliation of the options has been started without \<^verbatim>\<open>await\<close> and is pending, and
  the options are as desired only when it has run. When storage rejects the update of the
  option, the call returns successfully all the same, and the option is never as desired.
\<close>

theorem options_not_persisted_at_return:
  "fst (updateContentSlotsForView 1 desiredKept scenarioA) = Inr () \<and>
   optionsOf 1 (snd (updateContentSlotsForView 1 desiredKept scenarioA)) = [(''color'', Str ''red'')] \<and>
   pending (snd (updateContentSlotsForView 1 desiredKept scenarioA)) =
     [SetOptionsTask 1 [(''color'', Str ''blue'')] (Inr [(''color'', Str ''red'')])] \<and>
   optionsOf 1 (settle (snd (updateContentSlotsForView 1 desiredKept scenarioA))) =
     [(''color'', Str ''blue'')] \<and>
   fst (updateContentSlotsForView 1 desiredKept optionUpdateFails) = Inr () \<and>
   optionsOf 1 (settle (snd (updateContentSlotsForView 1 desiredKept optionUpdateFails))) =
     [(''color'', Str ''red'')]"
  by code_simp

text \<open>
  C4 is not what the code does for the options of a slot. Storage rejects the update of
  the option of slot 1, so that the reconciliation of its options fails; the call creates
  the new slot and returns successfully as if nothing had failed; when the pending
  reconciliations have run, slot 1 still has color = red, and the failure has reached
  neither the caller nor the log.
\<close>

theorem option_failure_does_not_reach_caller:
  "fst (setOptionsForContentSlot 1 [(''color'', Str ''blue'')]
         (snd (updateContentSlotsForView 1 desiredA optionUpdateFails))) = Inl StorageFailure \<and>
   fst (updateContentSlotsForView 1 desiredA optionUpdateFails) = Inr () \<and>
   map (\<lambda>c. (slot_id c, slot_componentType c))
     (contentSlots (snd (updateContentSlotsForView 1 desiredA optionUpdateFails))) =
     [(1, ''text''), (3, ''clock'')] \<and>
   pending (snd (updateContentSlotsForView 1 desiredA optionUpdateFails)) =
     [SetOptionsTask 1 [(''color'', Str ''blue'')] (Inr [(''color'', Str ''red'')]),
      SetOptionsTask 3 [] (Inr [])] \<and>
   optionsOf 1 (settle (snd (updateContentSlotsForView 1 desiredA optionUpdateFails))) =
     [(''color'', Str ''red'')] \<and>
   logged (settle (snd (updateContentSlotsForView 1 desiredA optionUpdateFails))) = []"
  by code_simp

text \<open>
  What C4 says of the awaited steps holds, as in scenario C: the identity 99 is not in
  storage, the call fails with NotFound, and the removal of slots 1 and 2 and the creation
  of slot 3, done before, stay.
\<close>

lemma absent_identity_fails_without_rollback:
  "fst (updateContentSlotsForView 1 desiredC scenarioA) = Inl NotFound \<and>
   map (\<lambda>c. (slot_id c, slot_componentType c)) (contentSlots (snd (updateContentSlotsForView 1 desiredC scenarioA))) =
     [(3, ''clock'')] \<and>
   drop (length (trace scenarioA)) (trace (snd (updateContentSlotsForView 1 desiredC scenarioA))) =
     [GetContentSlotsByViewId 1, DeleteOptionsForContentSlot 1, DeleteContentSlot 1,
      DeleteOptionsForContentSlot 2, DeleteContentSlot 2, CreateContentSlot,
      GetOptionsForContentSlot 3, GetContentSlot 99]"
  by code_simp


text \<open>
  In general a loop ends at the first step that fails, with that step's error and in the
  state that step left: what the steps before have written stays, and no later step runs.
\<close>

lemma forEach_aborts:
  assumes "forEach xs body s = (Inr (), s1)" and "body y s1 = (Inl e, s2)"
  shows "forEach (xs @ y # ys) body s = (Inl e, s2)"
  using assms
proof (induction xs arbitrary: s)
  case Nil
  then show ?case by simp
next
  case (Cons x xs)
  from Cons.prems(1) obtain t where "body x s = (Inr (), t)" "forEach xs body t = (Inr (), s1)"
    by (auto split: prod.splits sum.splits)
  with Cons.IH[OF _ Cons.prems(2)] show ?case by simp
qed

section \<open>Reconciling twice\<close>

subsection \<open>Slots\<close>


lemma placedRow_unmentioned:
  "Some (slot_id c) \<notin> desc_id ` set ds \<Longrightarrow> placedRow v ds c = c"
  by (induction ds arbitrary: c) auto



lemma placedRow_view:
  assumes "slot_viewId (placedRow v ds c) = v"
  shows "Some (slot_id c) \<in> desc_id ` set ds \<or> slot_viewId c = v"
  using assms placedRow_unmentioned[of c ds v] by (cases "Some (slot_id c) \<in> desc_id ` set ds") auto

lemma placeContentSlot_identified:
  assumes "placeContentSlot v d s = (Inr (), s')" and "desc_id d \<noteq> None"
  shows "contentSlots s' = map (placedRow v [d]) (contentSlots s) \<and>
         extendsBy (\<lambda>c. \<not> createOrDelete c) s s'"
proof -
  from assms(2) obtain i where i: "desc_id d = Some i" by auto
  from assms(1) i obtain ex s1 x s2 where
    g: "contentSlotRepository_getContentSlot i s = (Inr ex, s1)" and
    u: "contentSlotRepository_updateContentSlot (slot_id ex) (desc_componentType d) v
          (desc_columnStart d) (desc_rowStart d) (desc_columnEnd d) (desc_rowEnd d) s1 = (Inr x, s2)" and
    st: "startSetOptionsForContentSlot (slot_id ex) (optionsOrEmpty d) s2 = (Inr (), s')"
    unfolding placeContentSlot_def
    by (auto elim!: andThen_cases)
  from g have ex: "slot_id ex = i" and s1: "s1 = s\<lparr>trace := trace s @ [GetContentSlot i]\<rparr>"
    by (auto simp: contentSlotRepository_getContentSlot_def orNotFound_def andThen_def succeed_def
          request_def Let_def find_Some_iff split: if_splits option.splits)
  from startSetOptions_result[OF st] ex
  have s': "contentSlots s' = contentSlots s2"
    "trace s' = trace s2 @ [GetOptionsForContentSlot i]" by simp_all
  from u ex s1 have s2: "contentSlots s2 = map (\<lambda>c. if slot_id c = i
              then c\<lparr>slot_componentType := desc_componentType d, slot_viewId := v,
                     slot_columnStart := desc_columnStart d, slot_rowStart := desc_rowStart d,
                     slot_columnEnd := desc_columnEnd d, slot_rowEnd := desc_rowEnd d\<rparr>
              else c) (contentSlots s)"
    and t2: "trace s2 = trace s @ [GetContentSlot i, UpdateContentSlot i]"
    by (auto simp: contentSlotRepository_updateContentSlot_def request_def Let_def split: if_splits)
  have "map (placedRow v [d]) (contentSlots s) = contentSlots s2"
    unfolding s2 using i by (intro map_cong) auto
  with s' t2 show ?thesis by (simp add: extendsBy_def)
qed



subsection \<open>The calls of a successful reconciliation\<close>






subsection \<open>Options\<close>





section \<open>Failures of the awaited steps\<close>

text \<open>
  A failure of the awaited steps reaches the caller as it is, and it is NotFound or
  StorageFailure.
\<close>

lemma forEach_failure:
  "forEach xs body s = (Inl e, s') \<Longrightarrow> \<exists>x t. x \<in> set xs \<and> body x t = (Inl e, s')"
proof (induction xs arbitrary: s)
  case Nil
  then show ?case by simp
next
  case (Cons x xs)
  obtain r1 s1 where b: "body x s = (r1, s1)" by (cases "body x s")
  show ?case
  proof (cases r1)
    case (Inl e1)
    with Cons.prems b have "body x s = (Inl e, s')" by simp
    then show ?thesis by auto
  next
    case (Inr u)
    with Cons.prems b have "forEach xs body s1 = (Inl e, s')" by simp
    from Cons.IH[OF this] show ?thesis by auto
  qed
qed

lemma awaited_failure_kinds:
  assumes "updateContentSlotsForView v ds s = (Inl e, s')"
  shows "e = NotFound \<or> e = StorageFailure"
  using assms
proof (cases rule: updateContentSlotsForView_steps)
  case read_failed
  then show ?thesis by simp
next
  case (removal_failed e')
  from forEach_failure[OF removal_failed(2)] obtain i t where "removeContentSlot i t = (Inl e', s')"
    by blast
  then have "e' = StorageFailure" by (cases rule: removeContentSlot_cases) simp_all
  with removal_failed(1) show ?thesis by simp
next
  case (placing s2)
  from forEach_failure[OF placing(2)] obtain d t where "placeContentSlot v d t = (Inl e, s')"
    by blast
  then show ?thesis
    by (auto simp: placeContentSlot_def andThen_def succeed_def start_defs orNotFound_def
          request_def Let_def slot_repo_defs split: option.splits if_splits)
qed

section \<open>What the reconciliation reaches once every call has run\<close>

subsection \<open>The rows and the tasks that the second loop leaves\<close>

lemma getOptions_answer:
  "fst (contentSlotOptionRepository_getOptionsForContentSlot i s) =
     (if GetOptionsForContentSlot i \<in> set (faulty s) then Inl StorageFailure
      else Inr (optionsOf i s))"
  by (simp add: contentSlotOptionRepository_getOptionsForContentSlot_def request_def Let_def
        optionsOf_def)

lemma optionTasks_cong:
  assumes "faulty a = faulty b" and "contentSlotOptions a = contentSlotOptions b"
  shows "optionTasks a A = optionTasks b A"
proof -
  have "fst (contentSlotOptionRepository_getOptionsForContentSlot i a) =
        fst (contentSlotOptionRepository_getOptionsForContentSlot i b)" for i
    using assms optionsOf_cong[OF assms(2), of i] by (simp only: getOptions_answer)
  then show ?thesis by (simp only: optionTasks_def)
qed

lemma optionTasks_answered:
  "faulty s = [] \<Longrightarrow>
     optionTasks s A = map (\<lambda>(i, d). SetOptionsTask i (optionsOrEmpty d) (Inr (optionsOf i s))) A"
  by (simp add: optionTasks_def getOptions_answer)

lemma placeContentSlot_new:
  assumes "placeContentSlot v d s = (Inr (), s')" and "desc_id d = None"
  shows "contentSlots s' = contentSlots s @ [desiredRow v (nextContentSlotId s) d] \<and>
         nextContentSlotId s' = Suc (nextContentSlotId s) \<and>
         pending s' = pending s @ optionTasks s [(nextContentSlotId s, d)]"
  using assms
  by (auto simp: placeContentSlot_def andThen_def start_defs request_def Let_def desiredRow_def
        optionTasks_def optionsOf_def contentSlotRepository_createContentSlot_def split: if_splits)

lemma placeContentSlot_known:
  assumes "placeContentSlot v d s = (Inr (), s')" and "desc_id d = Some i"
  shows "contentSlots s' = map (placedRow v [d]) (contentSlots s) \<and>
         nextContentSlotId s' = nextContentSlotId s \<and>
         pending s' = pending s @ optionTasks s [(i, d)]"
proof -
  from assms obtain ex s1 x s2 where
    g: "contentSlotRepository_getContentSlot i s = (Inr ex, s1)" and
    u: "contentSlotRepository_updateContentSlot (slot_id ex) (desc_componentType d) v
          (desc_columnStart d) (desc_rowStart d) (desc_columnEnd d) (desc_rowEnd d) s1 = (Inr x, s2)" and
    st: "startSetOptionsForContentSlot (slot_id ex) (optionsOrEmpty d) s2 = (Inr (), s')"
    unfolding placeContentSlot_def
    by (auto elim!: andThen_cases)
  from g have ex: "slot_id ex = i" and s1: "s1 = s\<lparr>trace := trace s @ [GetContentSlot i]\<rparr>"
    by (auto simp: contentSlotRepository_getContentSlot_def orNotFound_def andThen_def succeed_def
          request_def Let_def find_Some_iff split: if_splits option.splits)
  from u ex s1 have k: "nextContentSlotId s2 = nextContentSlotId s" "pending s2 = pending s"
    "faulty s2 = faulty s" "contentSlotOptions s2 = contentSlotOptions s"
    by (auto simp: contentSlotRepository_updateContentSlot_def request_def Let_def split: if_splits)
  from startSetOptions_result[OF st] ex
  have "pending s' = pending s2 @ optionTasks s2 [(i, d)]" "nextContentSlotId s' = nextContentSlotId s2"
    by (simp_all add: optionTasks_def)
  with k optionTasks_cong[OF k(3,4)]
  have "pending s' = pending s @ optionTasks s [(i, d)]" "nextContentSlotId s' = nextContentSlotId s"
    by simp_all
  moreover from placeContentSlot_identified[OF assms(1)] assms(2)
  have "contentSlots s' = map (placedRow v [d]) (contentSlots s)" by simp
  ultimately show ?thesis by simp
qed

lemma placing_loop_exact:
  assumes "forEach ds (placeContentSlot v) t = (Inr (), t')"
    and "\<forall>i \<in> set (List.map_filter desc_id ds). i < nextContentSlotId t"
  shows "contentSlots t' =
           map (placedRow v ds) (contentSlots t) @
           map (\<lambda>(i, d). desiredRow v i d)
             (filter (\<lambda>(i, d). desc_id d = None) (assigned (nextContentSlotId t) ds)) \<and>
         pending t' = pending t @ optionTasks t (assigned (nextContentSlotId t) ds)"
  using assms
proof (induction ds arbitrary: t)
  case Nil
  then show ?case by (simp add: optionTasks_def)
next
  case (Cons d ds)
  from Cons.prems(1) obtain t1 where st: "placeContentSlot v d t = (Inr (), t1)"
    and rest: "forEach ds (placeContentSlot v) t1 = (Inr (), t')"
    by (auto split: prod.splits sum.splits)
  from placeContentSlot_keeps[OF st]
  have same: "optionTasks t1 A = optionTasks t A" for A
    by (intro optionTasks_cong) simp_all
  have app: "optionTasks t (x # A) = optionTasks t [x] @ optionTasks t A" for x A
    by (simp add: optionTasks_def)
  show ?case
  proof (cases "desc_id d")
    case None
    note new = placeContentSlot_new[OF st None]
    from Cons.prems(2) None new
    have lt: "\<forall>i \<in> set (List.map_filter desc_id ds). i < nextContentSlotId t1"
      by (auto simp: List.map_filter_simps)
    note ih = Cons.IH[OF rest lt, unfolded same]
    have un: "placedRow v ds (desiredRow v (nextContentSlotId t) d) = desiredRow v (nextContentSlotId t) d"
    proof (rule placedRow_unmentioned)
      from Cons.prems(2) None
      have "nextContentSlotId t \<notin> set (List.map_filter desc_id ds)"
        by (auto simp: List.map_filter_simps)
      then show "Some (slot_id (desiredRow v (nextContentSlotId t) d)) \<notin> desc_id ` set ds"
        by (auto simp: set_map_filter_desc_id desiredRow_def)
    qed
    have pr: "placedRow v (d # ds) = placedRow v ds"
      using None by (intro ext) simp
    from ih new un pr None show ?thesis by (simp add: app[symmetric])
  next
    case (Some i)
    note known = placeContentSlot_known[OF st Some]
    from Cons.prems(2) Some known
    have lt: "\<forall>i \<in> set (List.map_filter desc_id ds). i < nextContentSlotId t1"
      by (auto simp: List.map_filter_simps)
    note ih = Cons.IH[OF rest lt, unfolded same]
    have "map (placedRow v ds) (map (placedRow v [d]) (contentSlots t)) =
          map (placedRow v (d # ds)) (contentSlots t)" by simp
    with ih known Some show ?thesis by (simp add: app[symmetric])
  qed
qed

lemma map_filter_desc_id_Cons:
  "List.map_filter desc_id (d # ds) =
     (case desc_id d of None \<Rightarrow> List.map_filter desc_id ds | Some i \<Rightarrow> i # List.map_filter desc_id ds)"
  by (simp add: List.map_filter_simps split: option.splits)

lemma placedRow_desired:
  assumes "distinct (List.map_filter desc_id ds)" and "d \<in> set ds" and "desc_id d = Some (slot_id c)"
  shows "placedRow v ds c = desiredRow v (slot_id c) d"
  using assms
proof (induction ds arbitrary: c)
  case Nil
  then show ?case by simp
next
  case (Cons d' ds)
  show ?case
  proof (cases "desc_id d' = Some (slot_id c)")
    case True
    let ?c' = "c\<lparr>slot_componentType := desc_componentType d', slot_viewId := v,
               slot_columnStart := desc_columnStart d', slot_rowStart := desc_rowStart d',
               slot_columnEnd := desc_columnEnd d', slot_rowEnd := desc_rowEnd d'\<rparr>"
    from Cons.prems(1) True have nin: "slot_id c \<notin> set (List.map_filter desc_id ds)"
      by (simp add: map_filter_desc_id_Cons)
    then have "Some (slot_id ?c') \<notin> desc_id ` set ds"
      by (auto simp: set_map_filter_desc_id)
    then have un: "placedRow v ds ?c' = ?c'" by (rule placedRow_unmentioned)
    have "d = d'"
    proof (rule ccontr)
      assume "d \<noteq> d'"
      with Cons.prems(2) have "d \<in> set ds" by simp
      with Cons.prems(3) have "slot_id c \<in> set (List.map_filter desc_id ds)"
        by (auto simp: set_map_filter_desc_id)
      with nin show False by simp
    qed
    moreover have "?c' = desiredRow v (slot_id c) d'"
      by (cases c) (simp add: desiredRow_def)
    ultimately show ?thesis using True un by simp
  next
    case False
    with Cons.prems(2,3) have d: "d \<in> set ds" by auto
    from Cons.prems(1) have "distinct (List.map_filter desc_id ds)"
      by (simp add: map_filter_desc_id_Cons split: option.splits)
    from Cons.IH[OF this d Cons.prems(3)] False show ?thesis by simp
  qed
qed

lemma assigned_snd: "map snd (assigned n ds) = ds"
  by (induction ds arbitrary: n) (auto split: option.splits)

lemma assigned_known:
  "map fst (filter (\<lambda>(i, d). desc_id d \<noteq> None) (assigned n ds)) = List.map_filter desc_id ds"
  by (induction ds arbitrary: n) (auto simp: map_filter_desc_id_Cons split: option.splits)

lemma assigned_member:
  "(i, d) \<in> set (assigned n ds) \<Longrightarrow> d \<in> set ds \<and> (desc_id d = Some i \<or> desc_id d = None \<and> n \<le> i)"
proof (induction ds arbitrary: n)
  case Nil
  then show ?case by simp
next
  case (Cons d' ds)
  then show ?case
    by (cases "desc_id d'") (fastforce dest: Cons.IH)+
qed

lemma mset_map_partition:
  "mset (map f xs) = mset (map f (filter P xs)) + mset (map f (filter (\<lambda>x. \<not> P x) xs))"
  by (induction xs) auto

lemma view_rows_after:
  assumes run: "updateContentSlotsForView v ds s = (Inr (), s')"
    and dist: "distinct (List.map_filter desc_id ds)"
    and known: "set (List.map_filter desc_id ds) \<subseteq> slot_id ` set (contentSlots s)"
    and uniq: "distinct (map slot_id (contentSlots s))"
    and issued: "slotIdsIssued s"
  shows "mset (filter (\<lambda>c. slot_viewId c = v) (contentSlots s')) =
           mset (map (\<lambda>(i, d). desiredRow v i d) (assigned (nextContentSlotId s) ds)) \<and>
         pending s' = pending s @ optionTasks s' (assigned (nextContentSlotId s) ds)"
proof -
  let ?sub = "List.map_filter desc_id ds"
  let ?n = "nextContentSlotId s"
  let ?A = "assigned ?n ds"
  let ?row = "\<lambda>(i, d). desiredRow v i d"
  let ?g = "\<lambda>i. desiredRow v i (the (find (\<lambda>d. desc_id d = Some i) ds))"
  from run obtain s0 where
    rem: "forEach (removedSlots v ds s) removeContentSlot
             (s\<lparr>trace := trace s @ [GetContentSlotsByViewId v]\<rparr>) = (Inr (), s0)" and
    put: "forEach ds (placeContentSlot v) s0 = (Inr (), s')"
    by (cases rule: updateContentSlotsForView_steps) (auto simp: removedSlots_def)
  from removal_loop[OF rem]
  have T0: "contentSlots s0 = filter (\<lambda>c. slot_id c \<notin> set (removedSlots v ds s)) (contentSlots s)"
    by simp
  from removal_loop_rest[OF rem] have n0: "nextContentSlotId s0 = ?n" and p0: "pending s0 = pending s"
    by simp_all
  have lt: "\<forall>i \<in> set ?sub. i < nextContentSlotId s0"
    using known issued n0 by (auto simp: slotIdsIssued_def list_all_iff)
  have "faulty s' = faulty s0 \<and> contentSlotOptions s' = contentSlotOptions s0"
    using put
    by (rule forEach_rel[where R="\<lambda>a b. faulty b = faulty a \<and> contentSlotOptions b = contentSlotOptions a",
          rotated 3])
       (auto dest: placeContentSlot_keeps)
  then have same: "optionTasks s0 A = optionTasks s' A" for A
    by (intro optionTasks_cong) simp_all
  note ex = placing_loop_exact[OF put lt, unfolded n0 p0 same]
  \<comment> \<open>the descriptor of an identity\<close>
  have g: "desiredRow v i d = ?g i" if "d \<in> set ds" "desc_id d = Some i" for i d
  proof -
    from that obtain d' where f: "find (\<lambda>d. desc_id d = Some i) ds = Some d'"
      by (cases "find (\<lambda>d. desc_id d = Some i) ds") (auto simp: find_None_iff)
    then have d': "d' \<in> set ds" "desc_id d' = Some i" by (auto simp: find_Some_iff)
    let ?c = "desiredRow v i d"
    have "slot_id ?c = i" by (simp add: desiredRow_def)
    with placedRow_desired[OF dist that(1), of ?c v] placedRow_desired[OF dist d'(1), of ?c v] that(2) d'(2)
    have "desiredRow v i d = desiredRow v i d'" by simp
    with f show ?thesis by simp
  qed
  \<comment> \<open>the rows of the view among those that were stored\<close>
  have inT0: "slot_id c \<in> set ?sub" if "c \<in> set (contentSlots s0)" "slot_viewId c = v" for c
  proof -
    from that(1) T0 have "c \<in> set (contentSlots s)" "slot_id c \<notin> set (removedSlots v ds s)" by auto
    with that(2) show ?thesis by (auto simp: removedSlots_def removedComponents_def Let_def)
  qed
  have mentioned: "placedRow v ds c = ?g (slot_id c)" if "slot_id c \<in> set ?sub" for c
  proof -
    from that obtain d where d: "d \<in> set ds" "desc_id d = Some (slot_id c)"
      by (auto simp: set_map_filter_desc_id)
    from placedRow_desired[OF dist d] g[OF d] show ?thesis by simp
  qed
  have view_iff: "(slot_viewId (placedRow v ds c) = v) = (slot_id c \<in> set ?sub)"
    if "c \<in> set (contentSlots s0)" for c
  proof
    assume a: "slot_viewId (placedRow v ds c) = v"
    from placedRow_view[OF a] show "slot_id c \<in> set ?sub"
      using inT0[OF that] by (force simp: set_map_filter_desc_id)
  next
    assume "slot_id c \<in> set ?sub"
    from mentioned[OF this] show "slot_viewId (placedRow v ds c) = v" by (simp add: desiredRow_def)
  qed
  have old: "filter (\<lambda>c. slot_viewId c = v) (map (placedRow v ds) (contentSlots s0)) =
        map ?g (map slot_id (filter (\<lambda>c. slot_id c \<in> set ?sub) (contentSlots s0)))"
  proof -
    have "filter (\<lambda>c. slot_viewId c = v) (map (placedRow v ds) (contentSlots s0)) =
        map (placedRow v ds) (filter (\<lambda>c. slot_id c \<in> set ?sub) (contentSlots s0))"
      unfolding filter_map o_def using view_iff by (intro arg_cong[where f="map (placedRow v ds)"] filter_cong) auto
    also have "\<dots> = map ?g (map slot_id (filter (\<lambda>c. slot_id c \<in> set ?sub) (contentSlots s0)))"
      unfolding map_map o_def using mentioned by (intro map_cong) auto
    finally show ?thesis .
  qed
  have new: "filter (\<lambda>c. slot_viewId c = v) (map ?row (filter (\<lambda>(i, d). desc_id d = None) ?A)) =
        map ?row (filter (\<lambda>(i, d). desc_id d = None) ?A)"
    by (auto simp: filter_id_conv desiredRow_def)
  \<comment> \<open>the identities kept are the identities submitted\<close>
  have ids: "mset (map slot_id (filter (\<lambda>c. slot_id c \<in> set ?sub) (contentSlots s0))) = mset ?sub"
  proof -
    have d0: "distinct (map slot_id (contentSlots s0))"
      unfolding T0 using uniq by (rule distinct_map_filter)
    then have d1: "distinct (map slot_id (filter (\<lambda>c. slot_id c \<in> set ?sub) (contentSlots s0)))"
      by (rule distinct_map_filter)
    have "set ?sub \<subseteq> slot_id ` set (contentSlots s0)"
    proof
      fix i assume i: "i \<in> set ?sub"
      with known obtain c where c: "c \<in> set (contentSlots s)" "slot_id c = i" by auto
      from i have "i \<notin> set (removedSlots v ds s)"
        by (auto simp: removedSlots_def removedComponents_def Let_def)
      with c T0 show "i \<in> slot_id ` set (contentSlots s0)" by force
    qed
    then have "set (map slot_id (filter (\<lambda>c. slot_id c \<in> set ?sub) (contentSlots s0))) = set ?sub"
      by auto
    with set_eq_iff_mset_eq_distinct[OF d1 dist] show ?thesis by blast
  qed
  have knownA: "map ?row (filter (\<lambda>(i, d). desc_id d \<noteq> None) ?A) = map ?g ?sub"
  proof -
    have "map ?row (filter (\<lambda>(i, d). desc_id d \<noteq> None) ?A) =
          map ?g (map fst (filter (\<lambda>(i, d). desc_id d \<noteq> None) ?A))"
      unfolding map_map o_def
    proof (intro map_cong refl)
      fix x assume "x \<in> set (filter (\<lambda>(i, d). desc_id d \<noteq> None) ?A)"
      then obtain i d where x: "x = (i, d)" "(i, d) \<in> set ?A" "desc_id d \<noteq> None" by auto
      from assigned_member[OF x(2)] x(3) have "d \<in> set ds" "desc_id d = Some i" by auto
      from g[OF this] x(1) show "?row x = ?g (fst x)" by simp
    qed
    then show ?thesis by (simp only: assigned_known)
  qed
  have "mset (filter (\<lambda>c. slot_viewId c = v) (contentSlots s')) =
        mset (map ?g ?sub) + mset (map ?row (filter (\<lambda>(i, d). desc_id d = None) ?A))"
  proof -
    from ex have "filter (\<lambda>c. slot_viewId c = v) (contentSlots s') =
        filter (\<lambda>c. slot_viewId c = v) (map (placedRow v ds) (contentSlots s0)) @
        filter (\<lambda>c. slot_viewId c = v) (map ?row (filter (\<lambda>(i, d). desc_id d = None) ?A))"
      by simp
    then have "mset (filter (\<lambda>c. slot_viewId c = v) (contentSlots s')) =
        mset (map ?g (map slot_id (filter (\<lambda>c. slot_id c \<in> set ?sub) (contentSlots s0)))) +
        mset (map ?row (filter (\<lambda>(i, d). desc_id d = None) ?A))"
      by (simp only: old new mset_append)
    moreover have "mset (map ?g (map slot_id (filter (\<lambda>c. slot_id c \<in> set ?sub) (contentSlots s0)))) =
        mset (map ?g ?sub)"
      using arg_cong[OF ids, of "image_mset ?g"] by (simp only: mset_map)
    ultimately show ?thesis by (simp only:)
  qed
  also have "\<dots> = mset (map ?row (filter (\<lambda>(i, d). desc_id d \<noteq> None) ?A)) +
        mset (map ?row (filter (\<lambda>x. \<not> (case x of (i, d) \<Rightarrow> desc_id d \<noteq> None)) ?A))"
  proof -
    have "(\<lambda>x. \<not> (case x of (i, d) \<Rightarrow> desc_id d \<noteq> None)) = (\<lambda>(i, d). desc_id d = None)"
      by (rule ext) (simp add: case_prod_beta)
    then have "filter (\<lambda>x. \<not> (case x of (i, d) \<Rightarrow> desc_id d \<noteq> None)) ?A =
        filter (\<lambda>(i, d). desc_id d = None) ?A"
      by (rule arg_cong)
    then show ?thesis by (simp only: knownA)
  qed
  also have "\<dots> = mset (map ?row ?A)"
    by (rule mset_map_partition[symmetric])
  finally show ?thesis using ex by simp
qed

subsection \<open>The option reconciliations, when storage rejects nothing\<close>

lemma forEach_succeeds:
  assumes step: "\<And>x t. x \<in> set xs \<Longrightarrow> I t \<Longrightarrow> \<exists>t'. body x t = (Inr (), t') \<and> I t'"
    and init: "I s"
  shows "\<exists>s'. forEach xs body s = (Inr (), s') \<and> I s'"
  using assms
proof (induction xs arbitrary: s)
  case Nil
  then show ?case by simp
next
  case (Cons x xs)
  from Cons.prems(1)[of x s] Cons.prems(2) obtain t where t: "body x s = (Inr (), t)" "I t"
    by auto
  have "\<exists>s'. forEach xs body t = (Inr (), s') \<and> I s'"
    by (rule Cons.IH) (use Cons.prems(1) t(2) in auto)
  with t(1) show ?case by simp
qed

lemma request_succeeds:
  assumes "faulty s = []" and "\<And>t. faulty (snd (f t)) = faulty t \<and> contentSlots (snd (f t)) = contentSlots t"
  shows "\<exists>x s'. request c f s = (Inr x, s') \<and> faulty s' = [] \<and> contentSlots s' = contentSlots s"
proof -
  let ?s1 = "s\<lparr>trace := trace s @ [c]\<rparr>"
  obtain x s2 where f: "f ?s1 = (x, s2)" by (cases "f ?s1")
  with assms(2)[of ?s1] have "faulty s2 = faulty s" "contentSlots s2 = contentSlots s" by simp_all
  with assms(1) f show ?thesis by (simp add: request_def Let_def)
qed

lemma writeOptions_succeeds:
  assumes "faulty s = []"
  shows "\<exists>m s'. writeOptions c opts existing s = (Inr m, s') \<and> faulty s' = [] \<and>
           contentSlots s' = contentSlots s"
proof -
  let ?I = "\<lambda>t. faulty t = [] \<and> contentSlots t = contentSlots s"
  have get: "\<exists>m t'. contentSlotOptionRepository_getOptionsForContentSlot c t = (Inr m, t') \<and> ?I t'"
    if "?I t" for t
    using request_succeeds[of t "\<lambda>s. (optionsOf c s, s)" "GetOptionsForContentSlot c"] that
    by (auto simp: contentSlotOptionRepository_getOptionsForContentSlot_def)
  have del: "\<exists>t'. contentSlotOptionRepository_deleteOption c k t = (Inr (), t') \<and> ?I t'"
    if "?I t" for t k
    using that by (simp add: contentSlotOptionRepository_deleteOption_def request_def Let_def)
  have upd: "\<exists>t'. contentSlotOptionRepository_updateOption c k x t = (Inr (), t') \<and> ?I t'"
    if "?I t" for t k x
    using that by (simp add: contentSlotOptionRepository_updateOption_def request_def Let_def)
  have cre: "\<exists>t'. contentSlotOptionRepository_createOption c k x t = (Inr (), t') \<and> ?I t'"
    if "?I t" for t k x
    using that by (simp add: contentSlotOptionRepository_createOption_def request_def Let_def)
  from assms have i1: "?I s" by simp
  have "\<exists>s2. forEach (map fst existing) (\<lambda>key. if key \<notin> set (map fst opts)
                then contentSlotOptionRepository_deleteOption c key else succeed ()) s = (Inr (), s2) \<and> ?I s2"
    by (rule forEach_succeeds[where I = ?I]) (use del i1 in \<open>auto simp: succeed_def\<close>)
  then obtain s2 where
    l1: "forEach (map fst existing) (\<lambda>key. if key \<notin> set (map fst opts)
                then contentSlotOptionRepository_deleteOption c key else succeed ()) s = (Inr (), s2)"
    and i2: "?I s2" by auto
  have "\<exists>s3. forEach opts (\<lambda>(key, val). if key \<in> set (map fst existing)
                then contentSlotOptionRepository_updateOption c key val
                else contentSlotOptionRepository_createOption c key val) s2 = (Inr (), s3) \<and> ?I s3"
    by (rule forEach_succeeds[where I = ?I]) (use upd cre i2 in \<open>auto split: prod.splits\<close>)
  then obtain s3 where
    l2: "forEach opts (\<lambda>(key, val). if key \<in> set (map fst existing)
                then contentSlotOptionRepository_updateOption c key val
                else contentSlotOptionRepository_createOption c key val) s2 = (Inr (), s3)"
    and i3: "?I s3" by auto
  from get[OF i3] obtain m s' where
    g2: "contentSlotOptionRepository_getOptionsForContentSlot c s3 = (Inr m, s')" and i4: "?I s'"
    by auto
  from l1 l2 g2 have "writeOptions c opts existing s = (Inr m, s')"
    by (simp add: writeOptions_def andThen_def)
  with i4 show ?thesis by blast
qed

lemma assigned_distinct:
  assumes "distinct (List.map_filter desc_id ds)"
    and "\<forall>i \<in> set (List.map_filter desc_id ds). i < n"
  shows "distinct (map fst (assigned n ds))"
  using assms
proof (induction ds arbitrary: n)
  case Nil
  then show ?case by simp
next
  case (Cons d ds)
  show ?case
  proof (cases "desc_id d")
    case None
    with Cons.prems have d: "distinct (List.map_filter desc_id ds)"
      and lt: "\<forall>i \<in> set (List.map_filter desc_id ds). i < n"
      by (simp_all add: map_filter_desc_id_Cons)
    from lt have "\<forall>i \<in> set (List.map_filter desc_id ds). i < Suc n" by auto
    from Cons.IH[OF d this] have dr: "distinct (map fst (assigned (Suc n) ds))" .
    have "n \<notin> fst ` set (assigned (Suc n) ds)"
    proof
      assume "n \<in> fst ` set (assigned (Suc n) ds)"
      then obtain e where e: "(n, e) \<in> set (assigned (Suc n) ds)" by auto
      from assigned_member[OF e] lt show False
        by (auto simp: set_map_filter_desc_id)
    qed
    with dr None show ?thesis by simp
  next
    case (Some i)
    with Cons.prems have d: "distinct (List.map_filter desc_id ds)"
      and lt: "\<forall>i \<in> set (List.map_filter desc_id ds). i < n"
      and i: "i \<notin> set (List.map_filter desc_id ds)" "i < n"
      by (simp_all add: map_filter_desc_id_Cons)
    from Cons.IH[OF d lt] have dr: "distinct (map fst (assigned n ds))" .
    have "i \<notin> fst ` set (assigned n ds)"
    proof
      assume "i \<in> fst ` set (assigned n ds)"
      then obtain e where e: "(i, e) \<in> set (assigned n ds)" by auto
      from assigned_member[OF e] i show False
        by (auto simp: set_map_filter_desc_id)
    qed
    with dr Some show ?thesis by simp
  qed
qed

lemma tasks_settled:
  assumes "distinct (map fst A)" and "faulty t = []"
    and "\<And>i d. (i, d) \<in> set A \<Longrightarrow> distinct (map fst (optionsOrEmpty d))"
  shows "contentSlots (fold runTask (optionTasks t A) t) = contentSlots t \<and>
         (\<forall>(i, d) \<in> set A.
            set (optionsOf i (fold runTask (optionTasks t A) t)) = set (optionsOrEmpty d))"
  using assms
proof (induction A arbitrary: t)
  case Nil
  then show ?case by (simp add: optionTasks_def)
next
  case (Cons a A)
  obtain i d where a: "a = (i, d)" by (cases a)
  let ?opts = "optionsOrEmpty d"
  from writeOptions_succeeds[OF Cons.prems(2), of i ?opts "optionsOf i t"] obtain m t1 where
    run: "writeOptions i ?opts (optionsOf i t) t = (Inr m, t1)" and
    f1: "faulty t1 = []" and c1: "contentSlots t1 = contentSlots t" by blast
  from Cons.prems(3)[of i d] a have "distinct (map fst ?opts)" by simp
  from writeOptions_converges[OF run this] have o1: "set (optionsOf i t1) = set ?opts"
    by blast
  from Cons.prems(1) have dA: "distinct (map fst A)" and iA: "i \<notin> fst ` set A"
    by (simp_all add: a)
  have first: "runTask (SetOptionsTask i ?opts (Inr (optionsOf i t))) t = t1"
    using run by (simp add: andThen_def settled_def)
  have others: "optionTasks t A = optionTasks t1 A"
  proof -
    have "optionsOf j t1 = optionsOf j t" if "(j, e) \<in> set A" for j e
    proof -
      from that iA have "j \<noteq> i" by force
      from writeOptions_other_slot[OF this run] show ?thesis .
    qed
    then show ?thesis
      unfolding optionTasks_answered[OF Cons.prems(2)] optionTasks_answered[OF f1]
      by (intro map_cong refl) auto
  qed
  have split: "optionTasks t (a # A) = SetOptionsTask i ?opts (Inr (optionsOf i t)) # optionTasks t1 A"
    unfolding others[symmetric] using optionTasks_answered[OF Cons.prems(2)] by (simp add: a)
  have IH: "contentSlots (fold runTask (optionTasks t1 A) t1) = contentSlots t1 \<and>
         (\<forall>(i, d) \<in> set A. set (optionsOf i (fold runTask (optionTasks t1 A) t1)) = set (optionsOrEmpty d))"
    by (rule Cons.IH[OF dA f1]) (use Cons.prems(3) in auto)
  from iA have "list_all (\<lambda>t. taskSlot t \<noteq> Some i) (optionTasks t1 A)"
    by (force simp: list_all_iff optionTasks_def)
  from fold_runTask_other_slot[OF this, of t1] o1
  have "set (optionsOf i (fold runTask (optionTasks t1 A) t1)) = set ?opts" by simp
  with IH c1 first show ?case unfolding split by (simp add: a)
qed

subsection \<open>The view, once the pending option reconciliations have run\<close>

text \<open>
  A call of \<^verbatim>\<open>updateContentSlotsForView\<close> that succeeds, on a list whose identities are
  distinct and stored, leaves option reconciliations pending. Once they have run, and
  storage has rejected none of their calls, the slots of the view are the descriptors of
  the list, with their component type, their grid placement and their options. This is
  what the call would have reached at its return, had it awaited the option reconciliations.
\<close>

lemma reconciliation_reaches_desired:
  assumes run: "updateContentSlotsForView v ds s = (Inr (), s')"
    and dist: "distinct (List.map_filter desc_id ds)"
    and known: "set (List.map_filter desc_id ds) \<subseteq> slot_id ` set (contentSlots s)"
    and uniq: "distinct (map slot_id (contentSlots s))"
    and issued: "slotIdsIssued s"
    and nofault: "faulty s = []"
    and idle: "pending s = []"
    and keys: "\<And>d. d \<in> set ds \<Longrightarrow> distinct (map fst (optionsOrEmpty d))"
  shows "mset (map (\<lambda>c. (slotContent c, set (optionsOf (slot_id c) (settle s'))))
                 (filter (\<lambda>c. slot_viewId c = v) (contentSlots (settle s')))) =
         mset (map (\<lambda>d. (descContent d, set (optionsOrEmpty d))) ds)"
proof -
  let ?n = "nextContentSlotId s"
  let ?A = "assigned ?n ds"
  let ?q = "s'\<lparr>pending := []\<rparr>"
  let ?ts = "optionTasks ?q ?A"
  let ?h = "\<lambda>c. (slotContent c, set (optionsOf (slot_id c) (settle s')))"
  let ?k = "\<lambda>d. (descContent d, set (optionsOrEmpty d))"
  from view_rows_after[OF run dist known uniq issued] idle
  have rows: "mset (filter (\<lambda>c. slot_viewId c = v) (contentSlots s')) =
           mset (map (\<lambda>(i, d). desiredRow v i d) ?A)"
    and pend0: "pending s' = optionTasks s' ?A" by simp_all
  have "optionTasks s' ?A = optionTasks ?q ?A" by (intro optionTasks_cong) simp_all
  with pend0 have pend: "pending s' = ?ts" by simp
  from updateContentSlotsForView_keeps[OF run] nofault have f': "faulty ?q = []"
    by simp
  have lt: "\<forall>i \<in> set (List.map_filter desc_id ds). i < ?n"
    using known issued by (auto simp: slotIdsIssued_def list_all_iff)
  have dA: "distinct (map fst ?A)" by (rule assigned_distinct[OF dist lt])
  have kA: "distinct (map fst (optionsOrEmpty d))" if "(i, d) \<in> set ?A" for i d
    using assigned_member[OF that] keys by blast
  have st: "settle s' = fold runTask ?ts ?q"
    by (simp only: settle_def pend)
  from tasks_settled[OF dA f' kA, folded st]
  have cs: "contentSlots (settle s') = contentSlots s'"
    and opts: "\<forall>(i, d) \<in> set ?A. set (optionsOf i (settle s')) = set (optionsOrEmpty d)"
    by simp_all
  have "mset (map ?h (filter (\<lambda>c. slot_viewId c = v) (contentSlots (settle s')))) =
        image_mset ?h (mset (filter (\<lambda>c. slot_viewId c = v) (contentSlots s')))"
    by (simp only: cs mset_map)
  also have "\<dots> = mset (map ?h (map (\<lambda>(i, d). desiredRow v i d) ?A))"
    by (simp only: rows mset_map)
  also have "map ?h (map (\<lambda>(i, d). desiredRow v i d) ?A) = map ?k (map snd ?A)"
    unfolding map_map o_def
  proof (intro map_cong refl)
    fix x assume x: "x \<in> set ?A"
    obtain i d where xd: "x = (i, d)" by (cases x)
    with x opts have "set (optionsOf i (settle s')) = set (optionsOrEmpty d)" by auto
    then show "?h (case x of (i, d) \<Rightarrow> desiredRow v i d) = ?k (snd x)"
      by (simp add: xd desiredRow_def slotContent_def descContent_def)
  qed
  finally show ?thesis by (simp only: assigned_snd)
qed


section \<open>Both calls and all that they start\<close>













end
